theory Spec2Isabelle
  imports Main
begin

section \<open>The Spark runner of mrjob (\<^verbatim>\<open>mrjob/spark/runner.py\<close>)\<close>

text \<open>
  A shallow embedding of \<^verbatim>\<open>SparkMRJobRunner\<close>: step validation, step grouping, the
  harness argument list for streaming steps, the submission loop and the staging of local
  files. Python integers are \<open>int\<close>, strings are \<open>string\<close>, dictionaries are maps, and an
  exception is the \<open>Inl\<close> branch of a sum. Calls to the logger (\<^verbatim>\<open>log.info\<close>,
  \<^verbatim>\<open>log.debug\<close>, \<^verbatim>\<open>log.warning\<close>) only write log lines and are left out, and with
  them the \<^verbatim>\<open>step_desc\<close> text that is computed for the logger alone.
\<close>

subsection \<open>Data\<close>

text \<open>
  A job configuration is a dictionary of Hadoop property names and values, both strings.
  Equality of maps is equality at every key, which is how Python compares two
  dictionaries with \<^verbatim>\<open>==\<close>.
\<close>

type_synonym jobconf_dict = "string \<rightharpoonup> string"

text \<open>The dictionary describing a mapper, combiner or reducer of a streaming step.\<close>

type_synonym substep = "string \<rightharpoonup> string"

text \<open>
  A step description. \<open>stype\<close> is \<^verbatim>\<open>step['type']\<close>; the other fields are read with
  \<^verbatim>\<open>step.get(...)\<close>, so each is \<open>None\<close> when the key is absent.
\<close>

record step =
  stype :: string
  jobconf :: "jobconf_dict option"
  input_manifest :: "bool option"
  mapper :: "substep option"
  combiner :: "substep option"
  reducer :: "substep option"

text \<open>
  A group of steps as \<^verbatim>\<open>_group_steps\<close> builds it: the dictionary with the keys
  \<^verbatim>\<open>type\<close>, \<^verbatim>\<open>steps\<close> and \<^verbatim>\<open>step_num\<close>.
\<close>

record step_group =
  g_type :: string
  g_steps :: "step list"
  g_step_num :: int

text \<open>An element of an argument list: the source puts strings and integers in it.\<close>

datatype arg = AStr string | AInt int

text \<open>What \<^verbatim>\<open>StepFailedException\<close> is constructed with.\<close>

record step_failed =
  sf_reason :: string
  sf_step_num :: int
  sf_last_step_num :: "int option"
  sf_num_steps :: int

text \<open>A call on \<^verbatim>\<open>self.fs\<close>.\<close>

datatype fs_op = Mkdir string | Put string string

type_synonym environ = "string \<rightharpoonup> string"

text \<open>
  One run of \<^verbatim>\<open>spark-submit\<close>: the step range it was started for, the command line and
  environment it was given, and the exit code it ended with.
\<close>

record submission =
  sub_step_num :: int
  sub_last_step_num :: "int option"
  sub_args :: "arg list"
  sub_env :: environ
  sub_returncode :: int

text \<open>
  What the runner acts on: the calls made on the filesystem object so far, the paths that
  exist on the local disk, and the submissions made so far, each oldest first.
\<close>

record world =
  fs_ops :: "fs_op list"
  local_paths :: "string set"
  submissions :: "submission list"

text \<open>\<^verbatim>\<open>UploadDirManager\<close>: its prefix and its dictionary from local path to URI.\<close>

record upload_dir_manager =
  um_prefix :: string
  um_path_to_uri :: "(string \<times> string) list"

datatype error =
    NotImplementedError string
  | ValueError string
  | IndexError
  | AttributeError
  | StepFailedException step_failed
  | OtherError string

subsection \<open>Python primitives the runner uses\<close>

text \<open>Truth value of an optional string: \<^verbatim>\<open>None\<close> and \<^verbatim>\<open>''\<close> are false.\<close>

definition truthy :: "string option \<Rightarrow> bool" where
  "truthy v = (case v of None \<Rightarrow> False | Some s \<Rightarrow> s \<noteq> [])"

text \<open>\<^verbatim>\<open>sep.join(xs)\<close>.\<close>

fun join :: "string \<Rightarrow> string list \<Rightarrow> string" where
  "join sep [] = []"
| "join sep [x] = x"
| "join sep (x # y # ys) = x @ sep @ join sep (y # ys)"

text \<open>\<^verbatim>\<open>enumerate(xs)\<close>, counting from \<open>n\<close>.\<close>

fun enumerate_from :: "int \<Rightarrow> 'a list \<Rightarrow> (int \<times> 'a) list" where
  "enumerate_from n [] = []"
| "enumerate_from n (x # xs) = (n, x) # enumerate_from (n + 1) xs"

subsection \<open>\<^verbatim>\<open>_group_steps\<close>\<close>

text \<open>
  The body of the loop of \<^verbatim>\<open>_group_steps\<close>, on the list of groups built so far. The
  conjunction is evaluated left to right: \<^verbatim>\<open>groups[-1]['steps'][0]\<close> is read only when the
  step is a streaming step, there is a group and that group is a streaming group, and it
  raises \<^verbatim>\<open>IndexError\<close> on a group without steps.
\<close>

definition new_group :: "int \<Rightarrow> step \<Rightarrow> step_group" where
  "new_group step_num s = \<lparr>g_type = stype s, g_steps = [s], g_step_num = step_num\<rparr>"

definition group_step :: "step_group list \<Rightarrow> int \<times> step \<Rightarrow> error + step_group list" where
  "group_step groups p =
     (case p of (step_num, s) \<Rightarrow>
        if stype s = ''streaming'' \<and> groups \<noteq> [] \<and> g_type (last groups) = ''streaming''
        then (case g_steps (last groups) of
                [] \<Rightarrow> Inl IndexError
              | s0 # _ \<Rightarrow>
                  if jobconf s = jobconf s0
                  then Inr (butlast groups @
                            [(last groups)\<lparr>g_steps := g_steps (last groups) @ [s]\<rparr>])
                  else Inr (groups @ [new_group step_num s]))
        else Inr (groups @ [new_group step_num s]))"

fun group_loop :: "step_group list \<Rightarrow> (int \<times> step) list \<Rightarrow> error + step_group list" where
  "group_loop groups [] = Inr groups"
| "group_loop groups (p # ps) =
     (case group_step groups p of
        Inl e \<Rightarrow> Inl e
      | Inr groups' \<Rightarrow> group_loop groups' ps)"

definition group_steps :: "step list \<Rightarrow> error + step_group list" where
  "group_steps steps = group_loop [] (enumerate_from 0 steps)"

subsection \<open>The runner and its collaborators\<close>

text \<open>
  The attributes of a \<^verbatim>\<open>SparkMRJobRunner\<close> that the modelled methods read or set.
  \<open>mrjob_cls\<close> is the name of the job class (\<^verbatim>\<open>self._mrjob_cls.__name__\<close>), \<open>None\<close>
  when no class was given.
\<close>

record runner =
  mrjob_cls :: "string option"
  job_key :: string
  opt_spark_tmp_dir :: "string option"
  opt_spark_submit_bin :: "string list option"
  output_dir :: "string option"
  spark_tmp_dir :: string
  upload_mgr :: "upload_dir_manager option"
  spark_submit_bin :: "string list option"
  job_script_copy :: "string option"

text \<open>
  The methods inherited from \<^verbatim>\<open>MRJobBinRunner\<close> and the functions imported from other
  modules are not in the file. Each is a field of this record, so that every theorem
  holds whatever they compute. The fields that return a plain value stand for calls that
  return; \<open>get_step\<close>, the two superclass methods that \<^verbatim>\<open>_check_step\<close> and
  \<^verbatim>\<open>_spark_script_args\<close> delegate to, and \<open>args_for_spark_step\<close> may raise.
  \<open>run_spark_submit\<close> is the exit code of the subprocess, \<open>fs_error\<close> the exception a
  filesystem call ends with, if any. \<open>cmd_str\<close> is Python's \<^verbatim>\<open>str\<close> of a command
  list and \<open>signal_repr\<close> the \<^verbatim>\<open>repr\<close> of \<^verbatim>\<open>signal.Signals(n)\<close>, \<open>None\<close> where
  that raises \<^verbatim>\<open>ValueError\<close>. \<open>unicode_word\<close> says which characters beyond ASCII the
  regular expression class \<^verbatim>\<open>\w\<close> matches: all that Unicode counts as alphanumeric for a
  Python 3 pattern, none where the pattern is matched in ASCII mode.
\<close>

record collaborators =
  get_steps :: "step list"
  get_step :: "int \<Rightarrow> error + step"
  num_steps :: int
  super_check_step :: "step \<Rightarrow> int \<Rightarrow> error + unit"
  super_spark_script_args :: "int \<Rightarrow> int option \<Rightarrow> error + arg list"
  step_input_uris :: "int \<Rightarrow> string list"
  step_output_uri :: "int \<Rightarrow> string"
  mr_job_extra_args :: "string list"
  cmd_line :: "string list \<Rightarrow> string"
  jobconf_for_step :: "int \<Rightarrow> jobconf_dict"
  jobconf_from_dict :: "jobconf_dict \<Rightarrow> string \<Rightarrow> string option"
  args_for_spark_step :: "int \<Rightarrow> int option \<Rightarrow> error + arg list"
  os_environ :: environ
  spark_cmdenv :: "int \<Rightarrow> environ"
  spark_master_is_local :: bool
  combine_local_envs :: "environ \<Rightarrow> environ \<Rightarrow> environ"
  get_local_tmp_dir :: string
  run_spark_submit :: "arg list \<Rightarrow> environ \<Rightarrow> world \<Rightarrow> int"
  fs_error :: "fs_op \<Rightarrow> world \<Rightarrow> error option"
  is_uri :: "string \<Rightarrow> bool"
  gettempdir :: string
  fully_qualify_hdfs_path :: "string \<Rightarrow> string"
  cmd_str :: "arg list \<Rightarrow> string"
  signal_repr :: "int \<Rightarrow> string option"
  unicode_word :: "char \<Rightarrow> bool"

subsection \<open>More Python primitives\<close>

text \<open>\<^verbatim>\<open>'%d' % n\<close>: the decimal digits of an integer.\<close>

definition digit_char :: "nat \<Rightarrow> char" where
  "digit_char d = ''0123456789'' ! d"

fun show_nat :: "nat \<Rightarrow> string" where
  "show_nat n = (if n < 10 then [digit_char n] else show_nat (n div 10) @ [digit_char (n mod 10)])"

declare show_nat.simps [simp del]

definition show_int :: "int \<Rightarrow> string" where
  "show_int i = (if i < 0 then CHR ''-'' # show_nat (nat (- i)) else show_nat (nat i))"

text \<open>
  \<^verbatim>\<open>posixpath.join(a, *p)\<close>: a component that starts with a slash replaces what was
  joined so far; otherwise it is appended, after a slash unless the path so far is empty
  or ends with one. On a POSIX system \<^verbatim>\<open>os.path.join\<close> is the same function.
\<close>

definition path_join2 :: "string \<Rightarrow> string \<Rightarrow> string" where
  "path_join2 path b =
     (if b \<noteq> [] \<and> hd b = CHR ''/'' then b
      else if path = [] \<or> last path = CHR ''/'' then path @ b
      else path @ ''/'' @ b)"

definition posixpath_join :: "string \<Rightarrow> string list \<Rightarrow> string" where
  "posixpath_join a p = foldl path_join2 a p"

definition os_path_join :: "string \<Rightarrow> string list \<Rightarrow> string" where
  "os_path_join a p = posixpath_join a p"

text \<open>
  \<^verbatim>\<open>str(CalledProcessError(returncode, cmd))\<close> of the standard library (Python 3.6 and
  later): a negative return code is reported as the signal the command died with, any
  other as the exit status.
\<close>

definition called_process_error_str :: "collaborators \<Rightarrow> int \<Rightarrow> arg list \<Rightarrow> string" where
  "called_process_error_str c returncode cmd =
     (if returncode \<noteq> 0 \<and> returncode < 0
      then (case signal_repr c (- returncode) of
              Some sg \<Rightarrow> ''Command '' @ [CHR 0x27] @ cmd_str c cmd @ [CHR 0x27] @
                         '' died with '' @ sg @ ''.''
            | None \<Rightarrow> ''Command '' @ [CHR 0x27] @ cmd_str c cmd @ [CHR 0x27] @
                      '' died with unknown signal '' @ show_int (- returncode) @ ''.'')
      else ''Command '' @ [CHR 0x27] @ cmd_str c cmd @ [CHR 0x27] @
           '' returned non-zero exit status '' @ show_int returncode @ ''.'')"

subsection \<open>\<^verbatim>\<open>_check_step\<close>\<close>

text \<open>
  The loop over \<^verbatim>\<open>('mapper', 'combiner', 'reducer')\<close>, on the pairs of a name and
  \<^verbatim>\<open>step.get(name)\<close>. An absent or empty dictionary is skipped.
\<close>

fun check_mrcs :: "int \<Rightarrow> (string \<times> substep option) list \<Rightarrow> error + unit" where
  "check_mrcs step_num [] = Inr ()"
| "check_mrcs step_num ((mrc, sub) # rest) =
     (case sub of
        None \<Rightarrow> check_mrcs step_num rest
      | Some d \<Rightarrow>
          if dom d \<noteq> {} \<and> (''command'' \<in> dom d \<or> ''pre_filter'' \<in> dom d)
          then Inl (NotImplementedError
                 (''step '' @ show_int step_num @ [CHR 0x27] @ ''s '' @ mrc @
                  '' runs a command, but spark runner does not support commands''))
          else check_mrcs step_num rest)"

definition check_step :: "collaborators \<Rightarrow> runner \<Rightarrow> step \<Rightarrow> int \<Rightarrow> error + unit" where
  "check_step c r step step_num =
     (case super_check_step c step step_num of
        Inl e \<Rightarrow> Inl e
      | Inr _ \<Rightarrow>
          if input_manifest step = Some True
          then Inl (NotImplementedError ''spark runner does not support input manifests'')
          else if stype step = ''streaming''
          then (if mrjob_cls r = None
                then Inl (ValueError ''You must set mrjob_cls to run streaming steps'')
                else check_mrcs step_num
                       [(''mapper'', mapper step), (''combiner'', combiner step),
                        (''reducer'', reducer step)])
          else Inr ())"

text \<open>
  Modelled from the spec: the loop of the superclass constructor that validates the steps,
  which is not in the file. The spec has validation errors raised during job setup, and
  the comment in \<^verbatim>\<open>__init__\<close> has the steps checked in the superclass constructor; the
  loop calls \<^verbatim>\<open>_check_step\<close> on every step with its position and stops at the first
  exception.
\<close>

fun check_steps :: "collaborators \<Rightarrow> runner \<Rightarrow> (int \<times> step) list \<Rightarrow> error + unit" where
  "check_steps c r [] = Inr ()"
| "check_steps c r ((step_num, step) # rest) =
     (case check_step c r step step_num of
        Inl e \<Rightarrow> Inl e
      | Inr _ \<Rightarrow> check_steps c r rest)"

text \<open>
  Modelled from the spec: the superclass constructor, which is not in the file. It checks
  the steps and leaves the runner without an upload manager.
\<close>

definition super_init :: "collaborators \<Rightarrow> runner \<Rightarrow> error + runner" where
  "super_init c r =
     (case check_steps c r (enumerate_from 0 (get_steps c)) of
        Inl e \<Rightarrow> Inl e
      | Inr _ \<Rightarrow> Inr (r\<lparr>upload_mgr := None\<rparr>))"

subsection \<open>\<^verbatim>\<open>__init__\<close> and \<^verbatim>\<open>_pick_spark_tmp_dir\<close>\<close>

definition pick_spark_tmp_dir :: "collaborators \<Rightarrow> runner \<Rightarrow> string" where
  "pick_spark_tmp_dir c r =
     (if truthy (opt_spark_tmp_dir r)
      then (case opt_spark_tmp_dir r of
              Some d \<Rightarrow>
                if is_uri c d then posixpath_join d [job_key r]
                else os_path_join d [job_key r]
            | None \<Rightarrow> [])
      else if spark_master_is_local c
      then os_path_join (gettempdir c) [job_key r @ ''-spark'']
      else posixpath_join (fully_qualify_hdfs_path c ''tmp/mrjob'') [job_key r])"

text \<open>
  The constructor, on the runner whose \<open>mrjob_cls\<close> is set. The upload manager is created
  only when the temporary directory is a URI.
\<close>

definition init :: "collaborators \<Rightarrow> runner \<Rightarrow> error + runner" where
  "init c r0 =
     (case super_init c r0 of
        Inl e \<Rightarrow> Inl e
      | Inr r1 \<Rightarrow>
          let r2 = r1\<lparr>spark_tmp_dir := pick_spark_tmp_dir c r1\<rparr>;
              r3 = (if is_uri c (spark_tmp_dir r2)
                    then r2\<lparr>upload_mgr :=
                           Some \<lparr>um_prefix = posixpath_join (spark_tmp_dir r2) [''files'', []],
                                 um_path_to_uri = []\<rparr>\<rparr>
                    else r2);
              r4 = (if \<not> truthy (output_dir r3)
                    then r3\<lparr>output_dir := Some (posixpath_join (spark_tmp_dir r3) [''output''])\<rparr>
                    else r3)
          in Inr (r4\<lparr>spark_submit_bin := opt_spark_submit_bin r4, job_script_copy := None\<rparr>))"

subsection \<open>\<^verbatim>\<open>_upload_local_files\<close>\<close>

text \<open>A call on \<^verbatim>\<open>self.fs\<close>: it is recorded, and it returns or raises.\<close>

definition fs_call :: "collaborators \<Rightarrow> fs_op \<Rightarrow> world \<Rightarrow> (error + unit) \<times> world" where
  "fs_call c op w =
     (let w' = w\<lparr>fs_ops := fs_ops w @ [op]\<rparr>
      in case fs_error c op w of
           Some e \<Rightarrow> (Inl e, w')
         | None \<Rightarrow> (Inr (), w'))"

fun put_all :: "collaborators \<Rightarrow> (string \<times> string) list \<Rightarrow> world \<Rightarrow> (error + unit) \<times> world" where
  "put_all c [] w = (Inr (), w)"
| "put_all c ((src_path, uri) # rest) w =
     (case fs_call c (Put src_path uri) w of
        (Inl e, w') \<Rightarrow> (Inl e, w')
      | (Inr _, w') \<Rightarrow> put_all c rest w')"

definition upload_local_files :: "collaborators \<Rightarrow> runner \<Rightarrow> world \<Rightarrow> (error + unit) \<times> world" where
  "upload_local_files c r w =
     (case upload_mgr r of
        None \<Rightarrow> (Inr (), w)
      | Some um \<Rightarrow>
          (case fs_call c (Mkdir (um_prefix um)) w of
             (Inl e, w') \<Rightarrow> (Inl e, w')
           | (Inr _, w') \<Rightarrow> put_all c (um_path_to_uri um) w'))"

text \<open>
  \<^verbatim>\<open>_add_job_files_for_upload\<close>: every path of the working directory manager is added to
  the upload manager, when there is one. \<open>working_dir_paths\<close> is
  \<^verbatim>\<open>self._working_dir_mgr.paths()\<close> and \<open>um_add\<close> is \<^verbatim>\<open>UploadDirManager.add\<close>; neither is
  in the file, so both are arguments.
\<close>

definition add_job_files_for_upload ::
  "(upload_dir_manager \<Rightarrow> string \<Rightarrow> upload_dir_manager) \<Rightarrow> string list \<Rightarrow> runner \<Rightarrow> runner" where
  "add_job_files_for_upload um_add working_dir_paths r =
     (case upload_mgr r of
        None \<Rightarrow> r
      | Some um \<Rightarrow> r\<lparr>upload_mgr := Some (foldl um_add um working_dir_paths)\<rparr>)"

subsection \<open>\<^verbatim>\<open>_job_script_module_name\<close> and \<^verbatim>\<open>_get_job_script_dir\<close>\<close>

text \<open>
  The classes \<^verbatim>\<open>\w\<close> and \<^verbatim>\<open>\d\<close> of the regular expression. On ASCII characters
  \<^verbatim>\<open>\w\<close> is the letters, the digits and the underscore; on the characters beyond ASCII
  it is what \<open>unicode_word\<close> says. \<^verbatim>\<open>\d\<close> is the decimal digits, and there is none
  beyond ASCII among the characters of type \<open>char\<close>.
\<close>

definition re_word :: "collaborators \<Rightarrow> char \<Rightarrow> bool" where
  "re_word c ch =
     (let n = (of_char ch :: nat)
      in (48 \<le> n \<and> n \<le> 57) \<or> (65 \<le> n \<and> n \<le> 90) \<or> n = 95 \<or> (97 \<le> n \<and> n \<le> 122) \<or>
         (128 \<le> n \<and> unicode_word c ch))"

definition re_digit :: "char \<Rightarrow> bool" where
  "re_digit ch = (let n = (of_char ch :: nat) in 48 \<le> n \<and> n \<le> 57)"

text \<open>
  \<^verbatim>\<open>re.sub(r'[^\w\d]', '_', self._job_key)\<close>: every character that is neither in
  \<^verbatim>\<open>\w\<close> nor in \<^verbatim>\<open>\d\<close> becomes an underscore.
\<close>

definition job_script_module_name :: "collaborators \<Rightarrow> runner \<Rightarrow> string" where
  "job_script_module_name c r =
     map (\<lambda>ch. if \<not> (re_word c ch \<or> re_digit ch) then CHR ''_'' else ch) (job_key r)"

text \<open>The directory is created when it does not exist; the path is returned.\<close>

definition get_job_script_dir :: "collaborators \<Rightarrow> world \<Rightarrow> string \<times> world" where
  "get_job_script_dir c w =
     (let path = os_path_join (get_local_tmp_dir c) [''job_script'']
      in (path, if path \<notin> local_paths w
                then w\<lparr>local_paths := insert path (local_paths w)\<rparr>
                else w))"

subsection \<open>\<^verbatim>\<open>_spark_script_args\<close>\<close>

text \<open>
  The argument list is built as the source builds it, by appending to \<open>args\<close>. Reading
  \<^verbatim>\<open>__name__\<close> of a class that is \<^verbatim>\<open>None\<close> raises \<^verbatim>\<open>AttributeError\<close>.
\<close>

definition spark_script_args ::
  "collaborators \<Rightarrow> runner \<Rightarrow> int \<Rightarrow> int option \<Rightarrow> error + arg list" where
  "spark_script_args c r step_num last_step_num_opt =
     (case get_step c step_num of
        Inl e \<Rightarrow> Inl e
      | Inr step \<Rightarrow>
          if stype step \<noteq> ''streaming''
          then super_spark_script_args c step_num last_step_num_opt
          else
            let last_step_num = (case last_step_num_opt of None \<Rightarrow> step_num | Some l \<Rightarrow> l)
            in case mrjob_cls r of
                 None \<Rightarrow> Inl AttributeError
               | Some cls_name \<Rightarrow>
                   let args = [];
                       args = args @ [AStr (job_script_module_name c r @ ''.'' @ cls_name)];
                       args = args @ [AStr (join '','' (step_input_uris c step_num))];
                       args = args @ [AStr (step_output_uri c last_step_num)];
                       args = (if \<not> (step_num = 0 \<and> last_step_num = num_steps c - 1)
                               then args @ [AStr ''--first-step-num'', AInt step_num,
                                            AStr ''--last_step_num'', AInt step_num]
                               else args);
                       job_args = mr_job_extra_args c;
                       args = (if job_args \<noteq> []
                               then args @ [AStr ''--job-args'', AStr (cmd_line c job_args)]
                               else args);
                       jobconf = jobconf_for_step c step_num;
                       compress_conf = jobconf_from_dict c jobconf ''mapreduce.map.output.compress'';
                       codec_conf =
                         jobconf_from_dict c jobconf ''mapreduce.map.output.compress.codec''
                   in if truthy compress_conf \<and> compress_conf \<noteq> Some ''false'' \<and>
                         truthy codec_conf
                      then (case codec_conf of
                              Some codec \<Rightarrow> Inr (args @ [AStr ''--compression-codec'', AStr codec])
                            | None \<Rightarrow> Inr args)
                      else Inr args)"

subsection \<open>\<^verbatim>\<open>_run_step_on_spark\<close> and \<^verbatim>\<open>_run_steps_on_spark\<close>\<close>

text \<open>
  One submission. The subprocess is run once; its exit code comes from
  \<open>run_spark_submit\<close>, and the run is added to the submissions of the world. The \<open>step\<close>
  argument is not read by the source either.
\<close>

definition run_step_on_spark ::
  "collaborators \<Rightarrow> step \<Rightarrow> int \<Rightarrow> int option \<Rightarrow> world \<Rightarrow> (error + unit) \<times> world" where
  "run_step_on_spark c step step_num last_step_num w =
     (case args_for_spark_step c step_num last_step_num of
        Inl e \<Rightarrow> (Inl e, w)
      | Inr spark_submit_args \<Rightarrow>
          let env = os_environ c ++ spark_cmdenv c step_num;
              (env, w1) =
                (if spark_master_is_local c
                 then (case get_job_script_dir c w of
                         (dir, w') \<Rightarrow>
                           (combine_local_envs c env [''PYTHONPATH'' \<mapsto> dir], w'))
                 else (env, w));
              returncode = run_spark_submit c spark_submit_args env w1;
              w2 = w1\<lparr>submissions := submissions w1 @
                        [\<lparr>sub_step_num = step_num, sub_last_step_num = last_step_num,
                          sub_args = spark_submit_args, sub_env = env,
                          sub_returncode = returncode\<rparr>]\<rparr>
          in if returncode \<noteq> 0
             then (Inl (StepFailedException
                     \<lparr>sf_reason = called_process_error_str c returncode spark_submit_args,
                      sf_step_num = step_num, sf_last_step_num = last_step_num,
                      sf_num_steps = num_steps c\<rparr>), w2)
             else (Inr (), w2))"

text \<open>
  The loop of \<^verbatim>\<open>_run_steps_on_spark\<close> over the groups. An exception leaves the loop;
  \<^verbatim>\<open>group['steps'][0]\<close> raises \<^verbatim>\<open>IndexError\<close> on a group without steps.
\<close>

fun run_groups :: "collaborators \<Rightarrow> step_group list \<Rightarrow> world \<Rightarrow> (error + unit) \<times> world" where
  "run_groups c [] w = (Inr (), w)"
| "run_groups c (grp # rest) w =
     (let step_num = g_step_num grp;
          last_step_num = step_num + int (length (g_steps grp)) - 1
      in case g_steps grp of
           [] \<Rightarrow> (Inl IndexError, w)
         | step0 # _ \<Rightarrow>
             (case run_step_on_spark c step0 step_num (Some last_step_num) w of
                (Inl e, w') \<Rightarrow> (Inl e, w')
              | (Inr _, w') \<Rightarrow> run_groups c rest w'))"

definition run_steps_on_spark :: "collaborators \<Rightarrow> world \<Rightarrow> (error + unit) \<times> world" where
  "run_steps_on_spark c w =
     (case group_steps (get_steps c) of
        Inl e \<Rightarrow> (Inl e, w)
      | Inr groups \<Rightarrow> run_groups c groups w)"

subsection \<open>\<^verbatim>\<open>_run\<close>\<close>

text \<open>
  The staging and submission phases of \<^verbatim>\<open>_run\<close>, in the source's order. The calls
  before them (finding \<^verbatim>\<open>spark-submit\<close>, copying the job script, writing the setup
  wrapper scripts) are methods that are not in the file or that only prepare local files;
  they are left out.
\<close>

definition run ::
  "collaborators \<Rightarrow> (upload_dir_manager \<Rightarrow> string \<Rightarrow> upload_dir_manager) \<Rightarrow> string list \<Rightarrow>
     runner \<Rightarrow> world \<Rightarrow> (error + unit) \<times> world" where
  "run c um_add working_dir_paths r w =
     (let r' = add_job_files_for_upload um_add working_dir_paths r
      in case upload_local_files c r' w of
           (Inl e, w') \<Rightarrow> (Inl e, w')
         | (Inr _, w') \<Rightarrow> run_steps_on_spark c w')"

text \<open>
  Modelled from the spec: a job run, which constructs the runner and then runs it. The
  caller is not in the file; an exception of the constructor ends the run before
  \<^verbatim>\<open>_run\<close> is reached.
\<close>

definition run_job ::
  "collaborators \<Rightarrow> (upload_dir_manager \<Rightarrow> string \<Rightarrow> upload_dir_manager) \<Rightarrow> string list \<Rightarrow>
     runner \<Rightarrow> world \<Rightarrow> (error + unit) \<times> world" where
  "run_job c um_add working_dir_paths r0 w =
     (case init c r0 of
        Inl e \<Rightarrow> (Inl e, w)
      | Inr r \<Rightarrow> run c um_add working_dir_paths r w)"

section \<open>Predicates used in the proofs\<close>

text \<open>
  What every group built by \<^verbatim>\<open>_group_steps\<close> satisfies: it has a member, its members
  have the group's type, and the members of a streaming group have the job configuration
  of the first.
\<close>

definition group_ok :: "step_group \<Rightarrow> bool" where
  "group_ok g \<longleftrightarrow>
     g_steps g \<noteq> [] \<and>
     (\<forall>s \<in> set (g_steps g). stype s = g_type g \<and>
        (g_type g = ''streaming'' \<longrightarrow> jobconf s = jobconf (hd (g_steps g))))"

text \<open>The groups are numbered consecutively: each starts where the one before ends.\<close>

fun starts_from :: "int \<Rightarrow> step_group list \<Rightarrow> bool" where
  "starts_from n [] = True"
| "starts_from n (g # gs) = (g_step_num g = n \<and> starts_from (n + int (length (g_steps g))) gs)"

definition grouping_of :: "step list \<Rightarrow> step_group list \<Rightarrow> bool" where
  "grouping_of ss gs \<longleftrightarrow>
     concat (map g_steps gs) = ss \<and> (\<forall>g \<in> set gs. group_ok g) \<and> starts_from 0 gs"

text \<open>
  Every group of the first list is found in the second with the same first step number
  and with the same steps, possibly followed by more.
\<close>

definition extends :: "step_group list \<Rightarrow> step_group list \<Rightarrow> bool" where
  "extends gs gs' \<longleftrightarrow>
     (\<forall>g \<in> set gs. \<exists>g' \<in> set gs'. g_step_num g' = g_step_num g \<and>
        (\<exists>ext. g_steps g' = g_steps g @ ext))"

text \<open>
  The step range of a group, as \<^verbatim>\<open>_run_steps_on_spark\<close> computes it, and the step range a
  submission was started for.
\<close>

definition group_range :: "step_group \<Rightarrow> int \<times> int option" where
  "group_range g = (g_step_num g, Some (g_step_num g + int (length (g_steps g)) - 1))"

definition sub_range :: "submission \<Rightarrow> int \<times> int option" where
  "sub_range s = (sub_step_num s, sub_last_step_num s)"

text \<open>
  The exception \<^verbatim>\<open>_run_step_on_spark\<close> raises for a submission that ended with a non-zero
  exit code.
\<close>

definition step_failed_of :: "collaborators \<Rightarrow> submission \<Rightarrow> error" where
  "step_failed_of c s =
     StepFailedException
       \<lparr>sf_reason = called_process_error_str c (sub_returncode s) (sub_args s),
        sf_step_num = sub_step_num s, sf_last_step_num = sub_last_step_num s,
        sf_num_steps = num_steps c\<rparr>"

text \<open>
  What a run of the groups leaves behind: the submissions are for the first groups, in
  order and one each; all but the last ended with exit code 0; the run succeeds exactly
  when every group was submitted and ended with 0; and a last submission that failed is
  the exception of the run.
\<close>

definition trace_of ::
  "collaborators \<Rightarrow> step_group list \<Rightarrow> error + unit \<Rightarrow> submission list \<Rightarrow> bool" where
  "trace_of c groups res subs \<longleftrightarrow>
     map sub_range subs = take (length subs) (map group_range groups) \<and>
     (\<forall>s \<in> set (butlast subs). sub_returncode s = 0) \<and>
     ((res = Inr ()) = (length subs = length groups \<and> (\<forall>s \<in> set subs. sub_returncode s = 0))) \<and>
     (subs \<noteq> [] \<and> sub_returncode (last subs) \<noteq> 0 \<longrightarrow> res = Inl (step_failed_of c (last subs)))"

text \<open>
  A mapper, combiner or reducer that holds a \<^verbatim>\<open>command\<close> or a \<^verbatim>\<open>pre_filter\<close>.
\<close>

definition has_command :: "substep option \<Rightarrow> bool" where
  "has_command sub =
     (case sub of None \<Rightarrow> False | Some d \<Rightarrow> ''command'' \<in> dom d \<or> ''pre_filter'' \<in> dom d)"

section \<open>A concrete job\<close>

text \<open>
  Two streaming steps with one job configuration, a Spark step, and a streaming step with
  another configuration.
\<close>

definition conf_a :: jobconf_dict where
  "conf_a = [''mapreduce.job.reduces'' \<mapsto> ''2'']"

definition conf_b :: jobconf_dict where
  "conf_b = [''mapreduce.job.reduces'' \<mapsto> ''4'']"

definition streaming_step :: "jobconf_dict option \<Rightarrow> step" where
  "streaming_step jc =
     \<lparr>stype = ''streaming'', jobconf = jc, input_manifest = None,
      mapper = Some [''type'' \<mapsto> ''script''], combiner = None, reducer = None\<rparr>"

definition spark_step :: step where
  "spark_step =
     \<lparr>stype = ''spark'', jobconf = None, input_manifest = None,
      mapper = None, combiner = None, reducer = None\<rparr>"

definition demo_steps :: "step list" where
  "demo_steps = [streaming_step (Some conf_a), streaming_step (Some conf_a), spark_step,
                 streaming_step (Some conf_b)]"

definition demo_groups :: "step_group list" where
  "demo_groups =
     [\<lparr>g_type = ''streaming'',
       g_steps = [streaming_step (Some conf_a), streaming_step (Some conf_a)], g_step_num = 0\<rparr>,
      \<lparr>g_type = ''spark'', g_steps = [spark_step], g_step_num = 2\<rparr>,
      \<lparr>g_type = ''streaming'', g_steps = [streaming_step (Some conf_b)], g_step_num = 3\<rparr>]"

text \<open>
  The collaborators of the concrete job. The inputs are two files, each step but the last
  writes to a numbered directory, and the last step has map output compression with a
  codec configured. The command line of a submission ends with the number of the group's
  first step, and the submission for step 2 exits with status 1. \<open>unicode_word\<close> is the
  alphanumeric characters of Latin-1. \<open>arg_repr\<close> is Python's
  \<^verbatim>\<open>repr\<close> of a string without quotes or escapes, or of an integer.
\<close>

definition demo_compress_conf :: jobconf_dict where
  "demo_compress_conf =
     [''mapreduce.map.output.compress'' \<mapsto> ''true'',
      ''mapreduce.map.output.compress.codec'' \<mapsto> ''org.apache.hadoop.io.compress.GzipCodec'']"

definition arg_repr :: "arg \<Rightarrow> string" where
  "arg_repr a = (case a of AStr s \<Rightarrow> [CHR 0x27] @ s @ [CHR 0x27] | AInt i \<Rightarrow> show_int i)"

definition demo_collab :: collaborators where
  "demo_collab =
     \<lparr>get_steps = demo_steps,
      get_step = (\<lambda>i. if 0 \<le> i \<and> i < 4 then Inr (demo_steps ! nat i) else Inl IndexError),
      num_steps = 4,
      super_check_step = (\<lambda>s n. Inr ()),
      super_spark_script_args = (\<lambda>n l. Inr []),
      step_input_uris = (\<lambda>n. if n = 0 then [''in/a.txt'', ''in/b.txt'']
                              else [''tmp/step-output/'' @ show_int (n - 1)]),
      step_output_uri = (\<lambda>n. if n = 3 then ''out'' else ''tmp/step-output/'' @ show_int n),
      mr_job_extra_args = [],
      cmd_line = join '' '',
      jobconf_for_step = (\<lambda>n. if n = 3 then demo_compress_conf else Map.empty),
      jobconf_from_dict = (\<lambda>d k. d k),
      args_for_spark_step = (\<lambda>n l. Inr [AStr ''spark-submit'', AStr ''harness.py'', AInt n]),
      os_environ = Map.empty,
      spark_cmdenv = (\<lambda>n. Map.empty),
      spark_master_is_local = True,
      combine_local_envs = (\<lambda>a b. a ++ b),
      get_local_tmp_dir = ''/tmp/job'',
      run_spark_submit = (\<lambda>args env w. if last args = AInt 2 then 1 else 0),
      fs_error = (\<lambda>op w. None),
      is_uri = (\<lambda>p. take 7 p = ''hdfs://''),
      gettempdir = ''/tmp'',
      fully_qualify_hdfs_path = (\<lambda>p. ''hdfs:///user/me/'' @ p),
      cmd_str = (\<lambda>args. ''['' @ join '', '' (map arg_repr args) @ '']''),
      signal_repr = (\<lambda>n. None),
      unicode_word = (\<lambda>ch. of_char ch \<in> {170, 178, 179, 181, 185, 186, 188, 189, 190 :: nat} \<or>
                          (192 \<le> (of_char ch :: nat) \<and> of_char ch \<noteq> (215 :: nat) \<and>
                           of_char ch \<noteq> (247 :: nat)))\<rparr>"

definition demo_runner :: runner where
  "demo_runner =
     \<lparr>mrjob_cls = Some ''MRWordCount'',
      job_key = ''mr_word_count.me.20190101.000000'',
      opt_spark_tmp_dir = None,
      opt_spark_submit_bin = None,
      output_dir = None,
      spark_tmp_dir = [],
      upload_mgr = None,
      spark_submit_bin = None,
      job_script_copy = None\<rparr>"

definition demo_world :: world where
  "demo_world = \<lparr>fs_ops = [], local_paths = {}, submissions = []\<rparr>"

text \<open>The same job run under a job key with a letter beyond ASCII.\<close>

definition latin_runner :: runner where
  "latin_runner = demo_runner\<lparr>job_key := ''mr_caf'' @ [CHR 0xE9] @ ''.me''\<rparr>"

text \<open>
  The same job with map output compression switched off by the value \<^verbatim>\<open>False\<close>, and a
  codec, on every step.
\<close>

definition disabled_compress_conf :: jobconf_dict where
  "disabled_compress_conf =
     [''mapreduce.map.output.compress'' \<mapsto> ''False'',
      ''mapreduce.map.output.compress.codec'' \<mapsto> ''org.apache.hadoop.io.compress.GzipCodec'']"

definition disabled_collab :: collaborators where
  "disabled_collab = demo_collab\<lparr>jobconf_for_step := (\<lambda>n. disabled_compress_conf)\<rparr>"

text \<open>The text of the command line of the submission for step 2.\<close>

definition demo_cmd_text :: string where
  "demo_cmd_text =
     ''['' @ [CHR 0x27] @ ''spark-submit'' @ [CHR 0x27] @ '', '' @
     [CHR 0x27] @ ''harness.py'' @ [CHR 0x27] @ '', 2]''"

text \<open>A streaming step whose reducer is a shell command, and a job that contains it.\<close>

definition command_step :: step where
  "command_step =
     \<lparr>stype = ''streaming'', jobconf = None, input_manifest = None,
      mapper = Some [''type'' \<mapsto> ''script''],
      combiner = None,
      reducer = Some [''type'' \<mapsto> ''command'', ''command'' \<mapsto> ''uniq -c'']\<rparr>"

definition command_collab :: collaborators where
  "command_collab = demo_collab\<lparr>get_steps := [streaming_step None, command_step]\<rparr>"

section \<open>Step grouping\<close>

lemma enumerate_from_snoc:
  "enumerate_from n (xs @ [x]) = enumerate_from n xs @ [(n + int (length xs), x)]"
  by (induction xs arbitrary: n) (auto simp: algebra_simps)

lemma group_loop_append:
  "group_loop gs (ps @ qs) =
     (case group_loop gs ps of Inl e \<Rightarrow> Inl e | Inr gs' \<Rightarrow> group_loop gs' qs)"
  by (induction ps arbitrary: gs) (auto split: sum.splits)

lemma group_steps_snoc:
  "group_steps (ss @ [s]) =
     (case group_steps ss of Inl e \<Rightarrow> Inl e | Inr gs \<Rightarrow> group_step gs (int (length ss), s))"
  by (simp add: group_steps_def enumerate_from_snoc group_loop_append split: sum.splits)

lemma starts_from_append:
  "starts_from n (gs @ hs) =
     (starts_from n gs \<and> starts_from (n + int (length (concat (map g_steps gs)))) hs)"
  by (induction gs arbitrary: n) (auto simp: algebra_simps)

lemma new_group_sel:
  "g_steps (new_group n s) = [s]" "g_step_num (new_group n s) = n"
  "g_type (new_group n s) = stype s"
  by (simp_all add: new_group_def)

lemma group_ok_new: "group_ok (new_group n s)"
  by (simp add: group_ok_def new_group_def)

lemma grouping_of_new:
  assumes "grouping_of ss gs"
  shows "grouping_of (ss @ [s]) (gs @ [new_group (int (length ss)) s])"
  using assms by (auto simp: grouping_of_def group_ok_new starts_from_append new_group_sel)

lemma group_ok_extend:
  assumes "group_ok g" "g_type g = ''streaming''" "stype s = ''streaming''"
    "jobconf s = jobconf (hd (g_steps g))"
  shows "group_ok (g\<lparr>g_steps := g_steps g @ [s]\<rparr>)"
proof -
  have ne: "g_steps g \<noteq> []" using assms(1) unfolding group_ok_def by blast
  have old: "\<And>x. x \<in> set (g_steps g) \<Longrightarrow>
      stype x = g_type g \<and> jobconf x = jobconf (hd (g_steps g))"
    using assms(1,2) unfolding group_ok_def by blast
  have new: "stype s = g_type g" using assms(2,3) by (simp only:)
  have hd: "hd (g_steps g @ [s]) = hd (g_steps g)" using ne by simp
  have "\<forall>x \<in> set (g_steps g @ [s]).
          stype x = g_type g \<and> jobconf x = jobconf (hd (g_steps g @ [s]))"
    unfolding hd using old new assms(4) by (simp only: set_append set_simps) blast
  moreover have "g_steps (g\<lparr>g_steps := g_steps g @ [s]\<rparr>) = g_steps g @ [s]"
    "g_type (g\<lparr>g_steps := g_steps g @ [s]\<rparr>) = g_type g"
    by simp_all
  ultimately show ?thesis
    unfolding group_ok_def by (simp only:) blast
qed

lemma grouping_of_extend:
  assumes "grouping_of ss (bl @ [g])" "g_type g = ''streaming''" "stype s = ''streaming''"
    "jobconf s = jobconf (hd (g_steps g))"
  shows "grouping_of (ss @ [s]) (bl @ [g\<lparr>g_steps := g_steps g @ [s]\<rparr>])"
proof -
  have "group_ok g" using assms(1) by (simp add: grouping_of_def)
  then have "group_ok (g\<lparr>g_steps := g_steps g @ [s]\<rparr>)"
    using assms(2-4) by (rule group_ok_extend)
  then show ?thesis
    using assms(1) by (auto simp: grouping_of_def starts_from_append)
qed

lemma group_step_cases:
  "group_step gs (n, s) =
     (if stype s = ''streaming'' \<and> gs \<noteq> [] \<and> g_type (last gs) = ''streaming''
      then (case g_steps (last gs) of
              [] \<Rightarrow> Inl IndexError
            | s0 # _ \<Rightarrow>
                if jobconf s = jobconf s0
                then Inr (butlast gs @ [(last gs)\<lparr>g_steps := g_steps (last gs) @ [s]\<rparr>])
                else Inr (gs @ [new_group n s]))
      else Inr (gs @ [new_group n s]))"
  by (simp add: group_step_def)

lemma group_step_grouping:
  assumes "grouping_of ss gs"
  shows "group_step gs (int (length ss), s) =
           Inr (if stype s = ''streaming'' \<and> gs \<noteq> [] \<and> g_type (last gs) = ''streaming'' \<and>
                   jobconf s = jobconf (hd (g_steps (last gs)))
                then butlast gs @ [(last gs)\<lparr>g_steps := g_steps (last gs) @ [s]\<rparr>]
                else gs @ [new_group (int (length ss)) s])"
proof (cases "gs = []")
  case True
  then show ?thesis by (simp add: group_step_cases)
next
  case False
  then have "group_ok (last gs)" using assms by (simp add: grouping_of_def)
  then obtain s0 rest where "g_steps (last gs) = s0 # rest"
    by (cases "g_steps (last gs)") (auto simp: group_ok_def)
  then show ?thesis by (simp add: group_step_cases)
qed

lemma group_step_ok:
  assumes "grouping_of ss gs" "group_step gs (int (length ss), s) = Inr gs'"
  shows "grouping_of (ss @ [s]) gs'"
proof (cases "stype s = ''streaming'' \<and> gs \<noteq> [] \<and> g_type (last gs) = ''streaming'' \<and>
                   jobconf s = jobconf (hd (g_steps (last gs)))")
  case False
  then have "gs' = gs @ [new_group (int (length ss)) s]"
    using assms(2) unfolding group_step_grouping[OF assms(1)] by auto
  then show ?thesis using grouping_of_new[OF assms(1)] by simp
next
  case True
  define bl where "bl = butlast gs"
  define g where "g = last gs"
  have ne: "gs \<noteq> []" using True by simp
  have gs: "gs = bl @ [g]" using ne by (simp add: bl_def g_def)
  have gs': "gs' = bl @ [g\<lparr>g_steps := g_steps g @ [s]\<rparr>]"
    using assms(2) True unfolding group_step_grouping[OF assms(1)] g_def bl_def by simp
  have t: "g_type g = ''streaming''" "stype s = ''streaming''"
    "jobconf s = jobconf (hd (g_steps g))"
    using True by (simp_all add: g_def)
  have a: "grouping_of ss (bl @ [g])" using assms(1) by (simp only: gs[symmetric])
  have "grouping_of (ss @ [s]) (bl @ [g\<lparr>g_steps := g_steps g @ [s]\<rparr>])"
    using a t by (rule grouping_of_extend)
  then show ?thesis using gs' by simp
qed

lemma group_steps_grouping: "\<exists>gs. group_steps ss = Inr gs \<and> grouping_of ss gs"
proof (induction ss rule: rev_induct)
  case Nil
  show ?case by (simp add: group_steps_def grouping_of_def)
next
  case (snoc s ss)
  then obtain gs where a: "group_steps ss = Inr gs" "grouping_of ss gs" by blast
  obtain gs' where b: "group_step gs (int (length ss), s) = Inr gs'"
    using group_step_grouping[OF a(2)] by blast
  have "grouping_of (ss @ [s]) gs'" using group_step_ok[OF a(2) b] .
  then show ?case using a(1) b by (simp add: group_steps_snoc)
qed

lemma enumerate_from_append:
  "enumerate_from n (xs @ ys) = enumerate_from n xs @ enumerate_from (n + int (length xs)) ys"
  by (induction xs arbitrary: n) (auto simp: algebra_simps)

lemma starts_from_nth:
  assumes "starts_from n gs" "i < length gs"
  shows "g_step_num (gs ! i) = n + int (length (concat (map g_steps (take i gs))))"
proof -
  have "gs = take i gs @ (gs ! i) # drop (Suc i) gs"
    using assms(2) by (simp add: id_take_nth_drop)
  then have "starts_from n (take i gs @ (gs ! i) # drop (Suc i) gs)"
    using assms(1) by simp
  then show ?thesis
    unfolding starts_from_append by simp
qed

lemma grouping_of_slice:
  assumes "grouping_of ss gs" "g \<in> set gs"
  shows "g_steps g \<noteq> [] \<and> 0 \<le> g_step_num g \<and>
         take (length (g_steps g)) (drop (nat (g_step_num g)) ss) = g_steps g"
proof -
  obtain i where i: "i < length gs" "gs ! i = g"
    using assms(2) by (auto simp: in_set_conv_nth)
  have sf: "starts_from 0 gs" and cc: "concat (map g_steps gs) = ss"
    and ok: "group_ok g"
    using assms by (simp_all add: grouping_of_def)
  have num: "g_step_num g = int (length (concat (map g_steps (take i gs))))"
    using starts_from_nth[OF sf i(1)] i(2) by simp
  have "gs = take i gs @ g # drop (Suc i) gs"
    using id_take_nth_drop[OF i(1)] i(2) by simp
  then have "concat (map g_steps (take i gs @ g # drop (Suc i) gs)) = ss"
    using cc by simp
  then have ss: "ss = concat (map g_steps (take i gs)) @ g_steps g @
                     concat (map g_steps (drop (Suc i) gs))"
    by simp
  have "take (length (g_steps g)) (drop (nat (g_step_num g)) ss) = g_steps g"
    unfolding num by (subst ss) simp
  moreover have "g_steps g \<noteq> []" using ok unfolding group_ok_def by blast
  ultimately show ?thesis using num by simp
qed

text \<open>
  C3. For every step sequence \<^verbatim>\<open>_group_steps\<close> returns a list of groups whose step
  lists, concatenated in order, are the sequence itself. Every group has a member, and
  the steps of a group are the slice of the sequence that starts at the group's
  \<^verbatim>\<open>step_num\<close>: the recorded number is the position of the group's first member, which
  is the number of steps in the groups before it.
\<close>

theorem group_steps_partition:
  "\<exists>groups. group_steps steps = Inr groups \<and> concat (map g_steps groups) = steps \<and>
     (\<forall>g \<in> set groups. g_steps g \<noteq> [] \<and> 0 \<le> g_step_num g \<and>
        take (length (g_steps g)) (drop (nat (g_step_num g)) steps) = g_steps g) \<and>
     (\<forall>i < length groups.
        g_step_num (groups ! i) = int (length (concat (map g_steps (take i groups)))))"
proof -
  obtain groups where g: "group_steps steps = Inr groups" "grouping_of steps groups"
    using group_steps_grouping by blast
  have c: "concat (map g_steps groups) = steps" and sf: "starts_from 0 groups"
    using g(2) by (simp_all add: grouping_of_def)
  have n: "\<forall>i < length groups.
        g_step_num (groups ! i) = int (length (concat (map g_steps (take i groups))))"
    using starts_from_nth[OF sf] by simp
  show ?thesis using g(1) c n grouping_of_slice[OF g(2)] by blast
qed


lemma group_steps_four:
  assumes "stype s0 = ''streaming''" "stype s1 = ''streaming''" "jobconf s1 = jobconf s0"
    "stype s2 \<noteq> ''streaming''" "stype s3 = ''streaming''"
  shows "group_steps [s0, s1, s2, s3] =
           Inr [\<lparr>g_type = ''streaming'', g_steps = [s0, s1], g_step_num = 0\<rparr>,
                \<lparr>g_type = stype s2, g_steps = [s2], g_step_num = 2\<rparr>,
                \<lparr>g_type = ''streaming'', g_steps = [s3], g_step_num = 3\<rparr>]"
  using assms by (simp add: group_steps_def group_step_def new_group_def)

lemma demo_steps_types:
  "stype (streaming_step jc) = ''streaming''" "jobconf (streaming_step jc) = jc"
  "stype spark_step = ''spark''"
  by (simp_all add: streaming_step_def spark_step_def)

lemma group_steps_demo: "group_steps demo_steps = Inr demo_groups"
  unfolding demo_steps_def demo_groups_def
  by (subst group_steps_four) (simp_all add: demo_steps_types)

text \<open>The second group of the concrete job is the Spark step, at position 2.\<close>

theorem group_steps_partition_witness:
  "group_steps demo_steps = Inr demo_groups \<and>
   demo_groups ! 1 \<in> set demo_groups \<and>
   g_steps (demo_groups ! 1) = [spark_step] \<and> g_step_num (demo_groups ! 1) = 2 \<and>
   take (length (g_steps (demo_groups ! 1))) (drop (nat (g_step_num (demo_groups ! 1))) demo_steps)
     = g_steps (demo_groups ! 1)"
proof -
  obtain groups where g: "group_steps demo_steps = Inr groups"
    and sl: "\<forall>g \<in> set groups. g_steps g \<noteq> [] \<and> 0 \<le> g_step_num g \<and>
        take (length (g_steps g)) (drop (nat (g_step_num g)) demo_steps) = g_steps g"
    using group_steps_partition[of demo_steps] by blast
  have eq: "groups = demo_groups" using g by (simp add: group_steps_demo)
  have mem: "demo_groups ! 1 \<in> set demo_groups" by (simp add: demo_groups_def)
  have "take (length (g_steps (demo_groups ! 1)))
          (drop (nat (g_step_num (demo_groups ! 1))) demo_steps) = g_steps (demo_groups ! 1)"
    using sl mem unfolding eq by blast
  moreover have "g_steps (demo_groups ! 1) = [spark_step]" "g_step_num (demo_groups ! 1) = 2"
    by (simp_all add: demo_groups_def)
  ultimately show ?thesis using mem group_steps_demo by simp
qed

text \<open>
  C4. The step after a sequence is appended to the last group exactly when there is a
  last group, that group is a streaming group, the step is a streaming step and its job
  configuration equals that of the group's first member; otherwise it starts a group of
  its own, numbered with its position. Two streaming steps with equal configurations
  followed by a step of another type and a streaming step form the groups of steps 0 and
  1, of step 2 and of step 3.
\<close>

theorem group_steps_append_rule:
  "(\<exists>groups. group_steps steps = Inr groups \<and>
      group_steps (steps @ [s]) =
        Inr (if groups \<noteq> [] \<and> g_type (last groups) = ''streaming'' \<and> stype s = ''streaming'' \<and>
                (\<exists>s0 rest. g_steps (last groups) = s0 # rest \<and> jobconf s = jobconf s0)
             then butlast groups @ [(last groups)\<lparr>g_steps := g_steps (last groups) @ [s]\<rparr>]
             else groups @ [\<lparr>g_type = stype s, g_steps = [s],
                              g_step_num = int (length steps)\<rparr>])) \<and>
   (stype s0 = ''streaming'' \<and> stype s1 = ''streaming'' \<and> jobconf s1 = jobconf s0 \<and>
    stype s2 \<noteq> ''streaming'' \<and> stype s3 = ''streaming'' \<longrightarrow>
      group_steps [s0, s1, s2, s3] =
        Inr [\<lparr>g_type = ''streaming'', g_steps = [s0, s1], g_step_num = 0\<rparr>,
             \<lparr>g_type = stype s2, g_steps = [s2], g_step_num = 2\<rparr>,
             \<lparr>g_type = ''streaming'', g_steps = [s3], g_step_num = 3\<rparr>])"
proof (intro conjI impI)
  obtain groups where g: "group_steps steps = Inr groups" "grouping_of steps groups"
    using group_steps_grouping by blast
  have first: "(\<exists>s0 rest. g_steps (last groups) = s0 # rest \<and> jobconf s = jobconf s0) \<longleftrightarrow>
        jobconf s = jobconf (hd (g_steps (last groups)))" if "groups \<noteq> []"
  proof -
    have "group_ok (last groups)" using g(2) that by (simp add: grouping_of_def)
    then have "g_steps (last groups) \<noteq> []" unfolding group_ok_def by blast
    then show ?thesis by (cases "g_steps (last groups)") simp_all
  qed
  have "group_steps (steps @ [s]) = group_step groups (int (length steps), s)"
    using g(1) by (simp add: group_steps_snoc)
  also have "\<dots> = Inr (if stype s = ''streaming'' \<and> groups \<noteq> [] \<and>
                   g_type (last groups) = ''streaming'' \<and>
                   jobconf s = jobconf (hd (g_steps (last groups)))
                then butlast groups @ [(last groups)\<lparr>g_steps := g_steps (last groups) @ [s]\<rparr>]
                else groups @ [new_group (int (length steps)) s])"
    by (rule group_step_grouping[OF g(2)])
  also have "\<dots> = Inr (if groups \<noteq> [] \<and> g_type (last groups) = ''streaming'' \<and> stype s = ''streaming'' \<and>
                (\<exists>s0 rest. g_steps (last groups) = s0 # rest \<and> jobconf s = jobconf s0)
             then butlast groups @ [(last groups)\<lparr>g_steps := g_steps (last groups) @ [s]\<rparr>]
             else groups @ [\<lparr>g_type = stype s, g_steps = [s],
                              g_step_num = int (length steps)\<rparr>])"
    using first by (cases "groups = []") (auto simp: new_group_def)
  finally show "\<exists>groups. group_steps steps = Inr groups \<and>
      group_steps (steps @ [s]) =
        Inr (if groups \<noteq> [] \<and> g_type (last groups) = ''streaming'' \<and> stype s = ''streaming'' \<and>
                (\<exists>s0 rest. g_steps (last groups) = s0 # rest \<and> jobconf s = jobconf s0)
             then butlast groups @ [(last groups)\<lparr>g_steps := g_steps (last groups) @ [s]\<rparr>]
             else groups @ [\<lparr>g_type = stype s, g_steps = [s],
                              g_step_num = int (length steps)\<rparr>])"
    using g(1) by blast
next
  assume "stype s0 = ''streaming'' \<and> stype s1 = ''streaming'' \<and> jobconf s1 = jobconf s0 \<and>
    stype s2 \<noteq> ''streaming'' \<and> stype s3 = ''streaming''"
  then show "group_steps [s0, s1, s2, s3] =
        Inr [\<lparr>g_type = ''streaming'', g_steps = [s0, s1], g_step_num = 0\<rparr>,
             \<lparr>g_type = stype s2, g_steps = [s2], g_step_num = 2\<rparr>,
             \<lparr>g_type = ''streaming'', g_steps = [s3], g_step_num = 3\<rparr>]"
    by (intro group_steps_four) simp_all
qed


text \<open>The concrete job, and a streaming step joining the group of the one before it.\<close>

theorem group_steps_append_rule_witness:
  "group_steps demo_steps = Inr demo_groups \<and>
   group_steps ([streaming_step (Some conf_a)] @ [streaming_step (Some conf_a)]) =
     Inr [\<lparr>g_type = ''streaming'',
           g_steps = [streaming_step (Some conf_a), streaming_step (Some conf_a)],
           g_step_num = 0\<rparr>]"
proof -
  let ?a = "streaming_step (Some conf_a)"
  note rule = group_steps_append_rule[of "[?a]" ?a ?a ?a spark_step "streaming_step (Some conf_b)"]
  have one: "group_steps [?a] = Inr [\<lparr>g_type = ''streaming'', g_steps = [?a], g_step_num = 0\<rparr>]"
    by (simp add: group_steps_def group_step_def new_group_def demo_steps_types)
  have hyp: "stype ?a = ''streaming'' \<and> stype ?a = ''streaming'' \<and> jobconf ?a = jobconf ?a \<and>
    stype spark_step \<noteq> ''streaming'' \<and> stype (streaming_step (Some conf_b)) = ''streaming''"
    by (simp add: demo_steps_types)
  have "group_steps [?a, ?a, spark_step, streaming_step (Some conf_b)] =
        Inr [\<lparr>g_type = ''streaming'', g_steps = [?a, ?a], g_step_num = 0\<rparr>,
             \<lparr>g_type = stype spark_step, g_steps = [spark_step], g_step_num = 2\<rparr>,
             \<lparr>g_type = ''streaming'', g_steps = [streaming_step (Some conf_b)],
               g_step_num = 3\<rparr>]"
    using rule hyp by blast
  then have "group_steps demo_steps = Inr demo_groups"
    by (simp add: demo_steps_def demo_groups_def demo_steps_types)
  moreover have "group_steps ([?a] @ [?a]) =
     Inr [\<lparr>g_type = ''streaming'', g_steps = [?a, ?a], g_step_num = 0\<rparr>]"
  proof -
    obtain groups where g: "group_steps [?a] = Inr groups"
      and r: "group_steps ([?a] @ [?a]) =
        Inr (if groups \<noteq> [] \<and> g_type (last groups) = ''streaming'' \<and> stype ?a = ''streaming'' \<and>
                (\<exists>s0 rest. g_steps (last groups) = s0 # rest \<and> jobconf ?a = jobconf s0)
             then butlast groups @ [(last groups)\<lparr>g_steps := g_steps (last groups) @ [?a]\<rparr>]
             else groups @ [\<lparr>g_type = stype ?a, g_steps = [?a],
                              g_step_num = int (length [?a])\<rparr>])"
      using rule by blast
    have "groups = [\<lparr>g_type = ''streaming'', g_steps = [?a], g_step_num = 0\<rparr>]"
      using g one by simp
    then show ?thesis using r by (simp add: demo_steps_types)
  qed
  ultimately show ?thesis by blast
qed

lemma extends_refl: "extends gs gs"
  unfolding extends_def by auto

lemma extends_trans:
  assumes "extends gs gs'" "extends gs' gs''"
  shows "extends gs gs''"
  unfolding extends_def
proof
  fix g assume "g \<in> set gs"
  then obtain g' e1 where g': "g' \<in> set gs'" "g_step_num g' = g_step_num g"
    "g_steps g' = g_steps g @ e1"
    using assms(1) unfolding extends_def by blast
  then obtain g'' e2 where g'': "g'' \<in> set gs''" "g_step_num g'' = g_step_num g'"
    "g_steps g'' = g_steps g' @ e2"
    using assms(2) unfolding extends_def by blast
  have "g_steps g'' = g_steps g @ (e1 @ e2)" using g'(3) g''(3) by simp
  then show "\<exists>g'\<in>set gs''. g_step_num g' = g_step_num g \<and> (\<exists>ext. g_steps g' = g_steps g @ ext)"
    using g''(1,2) g'(2) by metis
qed

lemma extends_append: "extends gs (gs @ hs)"
  unfolding extends_def by auto

lemma extends_last:
  assumes "gs \<noteq> []"
  shows "extends gs (butlast gs @ [(last gs)\<lparr>g_steps := g_steps (last gs) @ [s]\<rparr>])"
  unfolding extends_def
proof
  fix g assume "g \<in> set gs"
  then have "g \<in> set (butlast gs @ [last gs])" using assms by simp
  then consider "g \<in> set (butlast gs)" | "g = last gs" by auto
  then show "\<exists>g'\<in>set (butlast gs @ [(last gs)\<lparr>g_steps := g_steps (last gs) @ [s]\<rparr>]).
               g_step_num g' = g_step_num g \<and> (\<exists>ext. g_steps g' = g_steps g @ ext)"
  proof cases
    case 1
    then show ?thesis by auto
  next
    case 2
    then show ?thesis by auto
  qed
qed

lemma group_step_extends:
  assumes "group_step gs p = Inr gs'"
  shows "extends gs gs'"
proof -
  obtain n s where p: "p = (n, s)" by (cases p)
  have "gs' = gs @ [new_group n s] \<or>
        (gs \<noteq> [] \<and> gs' = butlast gs @ [(last gs)\<lparr>g_steps := g_steps (last gs) @ [s]\<rparr>])"
    using assms unfolding p group_step_cases
    by (auto split: if_splits list.splits)
  then show ?thesis using extends_append extends_last by metis
qed

lemma group_loop_extends:
  "group_loop gs ps = Inr gs' \<Longrightarrow> extends gs gs'"
proof (induction ps arbitrary: gs)
  case Nil
  then show ?case by (simp add: extends_refl)
next
  case (Cons p ps)
  then obtain gs1 where s: "group_step gs p = Inr gs1" and l: "group_loop gs1 ps = Inr gs'"
    by (auto split: sum.splits)
  show ?case using extends_trans[OF group_step_extends[OF s] Cons.IH[OF l]] .
qed

lemma adjacent_streaming_grouped:
  assumes "stype s1 = ''streaming''" "stype s2 = ''streaming''" "jobconf s2 = jobconf s1"
  shows "\<exists>groups. group_steps (pre @ [s1, s2] @ post) = Inr groups \<and>
           (\<exists>g \<in> set groups. \<exists>a b. g_steps g = a @ [s1, s2] @ b \<and>
              g_step_num g + int (length a) = int (length pre))"
proof -
  obtain gs1 where g1: "group_steps (pre @ [s1]) = Inr gs1" "grouping_of (pre @ [s1]) gs1"
    using group_steps_grouping by blast
  have cc: "concat (map g_steps gs1) = pre @ [s1]" and sf: "starts_from 0 gs1"
    using g1(2) by (simp_all add: grouping_of_def)
  have ne: "gs1 \<noteq> []" using cc by auto
  define bl where "bl = butlast gs1"
  define g where "g = last gs1"
  have gs1: "gs1 = bl @ [g]" using ne by (simp add: bl_def g_def)
  have ok: "group_ok g" using g1(2) ne by (simp add: grouping_of_def g_def)
  have gne: "g_steps g \<noteq> []" using ok unfolding group_ok_def by blast
  define a where "a = butlast (g_steps g)"
  have cc': "concat (map g_steps bl) @ g_steps g = pre @ [s1]"
    using cc unfolding gs1 by simp
  then have "last (concat (map g_steps bl) @ g_steps g) = s1" by simp
  then have "last (g_steps g) = s1" using gne by simp
  then have ga: "g_steps g = a @ [s1]"
    using append_butlast_last_id[OF gne] by (simp add: a_def)
  have pre: "concat (map g_steps bl) @ a = pre" using cc' unfolding ga by simp
  have s1in: "s1 \<in> set (g_steps g)" unfolding ga by simp
  have gt: "g_type g = ''streaming''"
    using ok s1in assms(1) unfolding group_ok_def by metis
  have jc: "jobconf s1 = jobconf (hd (g_steps g))"
    using ok s1in gt unfolding group_ok_def by blast
  have num: "g_step_num g = int (length (concat (map g_steps bl)))"
    using sf unfolding gs1 starts_from_append by simp
  define g2 where "g2 = g\<lparr>g_steps := g_steps g @ [s2]\<rparr>"
  have "group_step gs1 (int (length (pre @ [s1])), s2) = Inr (bl @ [g2])"
    unfolding group_step_grouping[OF g1(2)] using ne gt jc assms(2,3)
    by (simp add: g_def[symmetric] bl_def[symmetric] g2_def)
  then have g2s: "group_steps (pre @ [s1, s2]) = Inr (bl @ [g2])"
    using group_steps_snoc[of "pre @ [s1]" s2] g1(1) by simp
  obtain groups where gr: "group_steps (pre @ [s1, s2] @ post) = Inr groups"
    using group_steps_grouping by blast
  have "group_steps (pre @ [s1, s2] @ post) =
          group_loop [] (enumerate_from 0 (pre @ [s1, s2]) @
                         enumerate_from (int (length (pre @ [s1, s2]))) post)"
    unfolding group_steps_def using enumerate_from_append[of 0 "pre @ [s1, s2]" post] by simp
  also have "\<dots> = group_loop (bl @ [g2]) (enumerate_from (int (length (pre @ [s1, s2]))) post)"
    unfolding group_loop_append using g2s by (simp add: group_steps_def)
  finally have "group_loop (bl @ [g2]) (enumerate_from (int (length (pre @ [s1, s2]))) post)
                  = Inr groups"
    using gr by simp
  then have "extends (bl @ [g2]) groups" by (rule group_loop_extends)
  then obtain g' ext where g': "g' \<in> set groups" "g_step_num g' = g_step_num g2"
    "g_steps g' = g_steps g2 @ ext"
    unfolding extends_def by auto
  have "g_steps g' = a @ [s1, s2] @ ext" using g'(3) ga by (simp add: g2_def)
  moreover have "g_step_num g' + int (length a) = int (length pre)"
    using g'(2) num pre by (auto simp: g2_def)
  ultimately show ?thesis using gr g'(1) by blast
qed

text \<open>
  C10. Two adjacent streaming steps without a job configuration (\<^verbatim>\<open>step.get('jobconf')\<close>
  is \<^verbatim>\<open>None\<close> for both) are next to each other in one group, wherever they stand in
  the job.
\<close>

theorem streaming_steps_without_jobconf_grouped:
  assumes "stype s1 = ''streaming''" "stype s2 = ''streaming''"
    "jobconf s1 = None" "jobconf s2 = None"
  shows "\<exists>groups. group_steps (pre @ [s1, s2] @ post) = Inr groups \<and>
           (\<exists>g \<in> set groups. \<exists>a b. g_steps g = a @ [s1, s2] @ b \<and>
              g_step_num g + int (length a) = int (length pre))"
  using assms by (intro adjacent_streaming_grouped) simp_all


text \<open>Two such steps between two Spark steps.\<close>

theorem streaming_steps_without_jobconf_grouped_witness:
  "stype (streaming_step None) = ''streaming'' \<and> jobconf (streaming_step None) = None \<and>
   (\<exists>groups. group_steps ([spark_step] @ [streaming_step None, streaming_step None] @
                               [spark_step]) = Inr groups \<and>
      (\<exists>g \<in> set groups. \<exists>a b. g_steps g = a @ [streaming_step None, streaming_step None] @ b \<and>
         g_step_num g + int (length a) = int (length [spark_step])))"
  using streaming_steps_without_jobconf_grouped
          [of "streaming_step None" "streaming_step None" "[spark_step]" "[spark_step]"]
  by (simp add: demo_steps_types)

section \<open>The harness argument list\<close>

lemma show_int_digits:
  "show_int 0 = ''0''" "show_int 1 = ''1''" "show_int 2 = ''2''" "show_int 3 = ''3''"
  by (simp_all add: show_int_def show_nat.simps digit_char_def)

lemma demo_module_name:
  "job_script_module_name demo_collab demo_runner = ''mr_word_count_me_20190101_000000''"
  by (simp add: job_script_module_name_def demo_runner_def re_word_def re_digit_def)

lemma latin_module_name:
  "job_script_module_name demo_collab latin_runner = ''mr_caf'' @ [CHR 0xE9] @ ''_me''"
  by (simp add: job_script_module_name_def latin_runner_def demo_runner_def re_word_def
      re_digit_def demo_collab_def)

lemma demo_get_step:
  "get_step demo_collab 0 = Inr (streaming_step (Some conf_a))"
  "get_step demo_collab 1 = Inr (streaming_step (Some conf_a))"
  "get_step demo_collab 2 = Inr spark_step"
  "get_step demo_collab 3 = Inr (streaming_step (Some conf_b))"
  by (simp_all add: demo_collab_def demo_steps_def)

lemma spark_script_args_streaming:
  assumes "get_step c step_num = Inr s" "stype s = ''streaming''" "mrjob_cls r = Some cls_name"
  shows "spark_script_args c r step_num last_step_num =
           Inr ([AStr (job_script_module_name c r @ ''.'' @ cls_name),
                 AStr (join '','' (step_input_uris c step_num)),
                 AStr (step_output_uri c (case last_step_num of None \<Rightarrow> step_num | Some l \<Rightarrow> l))]
                @ (if \<not> (step_num = 0 \<and>
                          (case last_step_num of None \<Rightarrow> step_num | Some l \<Rightarrow> l) = num_steps c - 1)
                   then [AStr ''--first-step-num'', AInt step_num,
                         AStr ''--last_step_num'', AInt step_num]
                   else [])
                @ (if mr_job_extra_args c \<noteq> []
                   then [AStr ''--job-args'', AStr (cmd_line c (mr_job_extra_args c))]
                   else [])
                @ (case (jobconf_from_dict c (jobconf_for_step c step_num)
                           ''mapreduce.map.output.compress'',
                         jobconf_from_dict c (jobconf_for_step c step_num)
                           ''mapreduce.map.output.compress.codec'') of
                     (Some compress, Some codec) \<Rightarrow>
                       if compress \<noteq> [] \<and> compress \<noteq> ''false'' \<and> codec \<noteq> []
                       then [AStr ''--compression-codec'', AStr codec]
                       else []
                   | _ \<Rightarrow> []))"
proof -
  define lst where "lst = (case last_step_num of None \<Rightarrow> step_num | Some l \<Rightarrow> l)"
  define compress where "compress = jobconf_from_dict c (jobconf_for_step c step_num)
                           ''mapreduce.map.output.compress''"
  define codec where "codec = jobconf_from_dict c (jobconf_for_step c step_num)
                           ''mapreduce.map.output.compress.codec''"
  show ?thesis
    unfolding spark_script_args_def Let_def lst_def[symmetric] compress_def[symmetric]
      codec_def[symmetric]
    by (cases compress; cases codec) (simp_all add: assms truthy_def)
qed

text \<open>
  C5. For a streaming step the argument list begins with the job class identifier (the
  module name made from the job key by replacing every character outside \<^verbatim>\<open>\w\<close> and
  \<^verbatim>\<open>\d\<close> with an underscore, a dot, the class name), then the input URIs of step
  \<open>step_num\<close> joined by commas, then the output URI of step \<open>last_step_num\<close>, which is
  \<open>step_num\<close> when no last step is given. \<^verbatim>\<open>_run_steps_on_spark\<close> passes the first and the
  last step number of the group.
\<close>

theorem spark_script_args_positional:
  assumes "get_step c step_num = Inr s" "stype s = ''streaming''" "mrjob_cls r = Some cls_name"
  shows "\<exists>rest. spark_script_args c r step_num last_step_num =
           Inr ([AStr (job_script_module_name c r @ ''.'' @ cls_name),
                 AStr (join '','' (step_input_uris c step_num)),
                 AStr (step_output_uri c (case last_step_num of None \<Rightarrow> step_num | Some l \<Rightarrow> l))]
                @ rest)"
  unfolding spark_script_args_streaming[OF assms] by blast

text \<open>
  The group of steps 0 and 1 of the concrete job reads the job's input and writes the
  output of step 1; under a job key with a letter beyond ASCII the letter is kept.
\<close>

theorem spark_script_args_positional_witness:
  "get_step demo_collab 0 = Inr (streaming_step (Some conf_a)) \<and>
   stype (streaming_step (Some conf_a)) = ''streaming'' \<and>
   mrjob_cls demo_runner = Some ''MRWordCount'' \<and>
   mrjob_cls latin_runner = Some ''MRWordCount'' \<and>
   (\<exists>rest. spark_script_args demo_collab demo_runner 0 (Some 1) =
      Inr ([AStr ''mr_word_count_me_20190101_000000.MRWordCount'', AStr ''in/a.txt,in/b.txt'',
            AStr ''tmp/step-output/1''] @ rest)) \<and>
   (\<exists>rest. spark_script_args demo_collab latin_runner 0 (Some 1) =
      Inr ([AStr (''mr_caf'' @ [CHR 0xE9] @ ''_me.MRWordCount''), AStr ''in/a.txt,in/b.txt'',
            AStr ''tmp/step-output/1''] @ rest))"
proof -
  have h: "get_step demo_collab 0 = Inr (streaming_step (Some conf_a))"
    "stype (streaming_step (Some conf_a)) = ''streaming''"
    "mrjob_cls demo_runner = Some ''MRWordCount''"
    by (simp_all add: demo_get_step demo_steps_types demo_runner_def)
  have l: "mrjob_cls latin_runner = Some ''MRWordCount''"
    by (simp add: latin_runner_def demo_runner_def)
  have v: "step_input_uris demo_collab 0 = [''in/a.txt'', ''in/b.txt'']"
    "step_output_uri demo_collab 1 = ''tmp/step-output/1''"
    by (simp_all add: demo_collab_def show_int_digits)
  have a: "\<exists>rest. spark_script_args demo_collab demo_runner 0 (Some 1) =
      Inr ([AStr ''mr_word_count_me_20190101_000000.MRWordCount'', AStr ''in/a.txt,in/b.txt'',
            AStr ''tmp/step-output/1''] @ rest)"
    using spark_script_args_positional[OF h, of "Some 1"]
    by (simp add: demo_module_name v)
  have b: "\<exists>rest. spark_script_args demo_collab latin_runner 0 (Some 1) =
      Inr ([AStr (''mr_caf'' @ [CHR 0xE9] @ ''_me.MRWordCount''), AStr ''in/a.txt,in/b.txt'',
            AStr ''tmp/step-output/1''] @ rest)"
    using spark_script_args_positional[OF h(1,2) l, of "Some 1"]
    by (simp add: latin_module_name v)
  show ?thesis using h l a b by blast
qed

text \<open>
  C1. For the group of steps 0 and 1 of the concrete four-step job the source appends
  \<^verbatim>\<open>--first-step-num\<close> with 0 and then \<^verbatim>\<open>--last_step_num\<close>, spelt with underscores, again with
  the first step number 0: the flag \<^verbatim>\<open>--last-step-num\<close> is not in the list and the last step
  number 1 is not passed.
\<close>

theorem spark_script_args_step_range_demo:
  "spark_script_args demo_collab demo_runner 0 (Some 1) =
     Inr [AStr ''mr_word_count_me_20190101_000000.MRWordCount'', AStr ''in/a.txt,in/b.txt'',
          AStr ''tmp/step-output/1'',
          AStr ''--first-step-num'', AInt 0, AStr ''--last_step_num'', AInt 0]"
proof -
  have v: "step_input_uris demo_collab 0 = [''in/a.txt'', ''in/b.txt'']"
    "step_output_uri demo_collab 1 = ''tmp/step-output/1''"
    "num_steps demo_collab = 4" "mr_job_extra_args demo_collab = []"
    "jobconf_from_dict demo_collab (jobconf_for_step demo_collab 0) k = None"
    "mrjob_cls demo_runner = Some ''MRWordCount''"
    for k
    by (simp_all add: demo_collab_def show_int_digits demo_runner_def)
  show ?thesis
    by (simp add: spark_script_args_def demo_get_step demo_steps_types v demo_module_name
        truthy_def)
qed


lemma class_arg_not_flag:
  "module @ ''.'' @ cls_name \<noteq> ''--compression-codec''"
proof
  assume eq: "module @ ''.'' @ cls_name = ''--compression-codec''"
  have "CHR ''.'' \<in> set (module @ ''.'' @ cls_name)" by simp
  then have "CHR ''.'' \<in> set ''--compression-codec''" by (simp only: eq)
  then show False by simp
qed

text \<open>
  C2, as amended. For a streaming step, \<^verbatim>\<open>--compression-codec\<close> and the codec are the
  last two arguments when \<^verbatim>\<open>mapreduce.map.output.compress\<close> has a value that is neither
  empty nor the exact text \<^verbatim>\<open>false\<close> and \<^verbatim>\<open>mapreduce.map.output.compress.codec\<close> has a
  non-empty value; otherwise nothing is appended. The flag is nowhere else in the list,
  provided the joined input URIs, the output URI and the quoted job arguments are not the
  flag's own text.
\<close>

theorem compression_codec_flag:
  assumes "get_step c step_num = Inr s" "stype s = ''streaming''" "mrjob_cls r = Some cls_name"
    and "join '','' (step_input_uris c step_num) \<noteq> ''--compression-codec''"
    and "step_output_uri c (case last_step_num of None \<Rightarrow> step_num | Some l \<Rightarrow> l)
           \<noteq> ''--compression-codec''"
    and "cmd_line c (mr_job_extra_args c) \<noteq> ''--compression-codec''"
  shows "\<exists>pre. AStr ''--compression-codec'' \<notin> set pre \<and>
           spark_script_args c r step_num last_step_num =
             Inr (pre @
                  (case (jobconf_from_dict c (jobconf_for_step c step_num)
                           ''mapreduce.map.output.compress'',
                         jobconf_from_dict c (jobconf_for_step c step_num)
                           ''mapreduce.map.output.compress.codec'') of
                     (Some compress, Some codec) \<Rightarrow>
                       if compress \<noteq> [] \<and> compress \<noteq> ''false'' \<and> codec \<noteq> []
                       then [AStr ''--compression-codec'', AStr codec]
                       else []
                   | _ \<Rightarrow> []))"
proof -
  let ?pre = "[AStr (job_script_module_name c r @ ''.'' @ cls_name),
                 AStr (join '','' (step_input_uris c step_num)),
                 AStr (step_output_uri c (case last_step_num of None \<Rightarrow> step_num | Some l \<Rightarrow> l))]
                @ (if \<not> (step_num = 0 \<and>
                          (case last_step_num of None \<Rightarrow> step_num | Some l \<Rightarrow> l) = num_steps c - 1)
                   then [AStr ''--first-step-num'', AInt step_num,
                         AStr ''--last_step_num'', AInt step_num]
                   else [])
                @ (if mr_job_extra_args c \<noteq> []
                   then [AStr ''--job-args'', AStr (cmd_line c (mr_job_extra_args c))]
                   else [])"
  have "AStr ''--compression-codec'' \<notin> set ?pre"
    using assms(4-6) class_arg_not_flag[of "job_script_module_name c r" cls_name]
    by simp
  moreover have "spark_script_args c r step_num last_step_num =
             Inr (?pre @
                  (case (jobconf_from_dict c (jobconf_for_step c step_num)
                           ''mapreduce.map.output.compress'',
                         jobconf_from_dict c (jobconf_for_step c step_num)
                           ''mapreduce.map.output.compress.codec'') of
                     (Some compress, Some codec) \<Rightarrow>
                       if compress \<noteq> [] \<and> compress \<noteq> ''false'' \<and> codec \<noteq> []
                       then [AStr ''--compression-codec'', AStr codec]
                       else []
                   | _ \<Rightarrow> []))"
    unfolding spark_script_args_streaming[OF assms(1-3)] by simp
  ultimately show ?thesis by blast
qed

text \<open>The last step of the concrete job has compression enabled and a codec.\<close>

theorem compression_codec_flag_witness:
  "get_step demo_collab 3 = Inr (streaming_step (Some conf_b)) \<and>
   stype (streaming_step (Some conf_b)) = ''streaming'' \<and>
   mrjob_cls demo_runner = Some ''MRWordCount'' \<and>
   join '','' (step_input_uris demo_collab 3) \<noteq> ''--compression-codec'' \<and>
   step_output_uri demo_collab 3 \<noteq> ''--compression-codec'' \<and>
   cmd_line demo_collab (mr_job_extra_args demo_collab) \<noteq> ''--compression-codec'' \<and>
   (\<exists>pre. AStr ''--compression-codec'' \<notin> set pre \<and>
      spark_script_args demo_collab demo_runner 3 None =
        Inr (pre @ [AStr ''--compression-codec'',
                    AStr ''org.apache.hadoop.io.compress.GzipCodec'']))"
proof -
  have h: "get_step demo_collab 3 = Inr (streaming_step (Some conf_b))"
    "stype (streaming_step (Some conf_b)) = ''streaming''"
    "mrjob_cls demo_runner = Some ''MRWordCount''"
    by (simp_all add: demo_get_step demo_steps_types demo_runner_def)
  have v: "join '','' (step_input_uris demo_collab 3) \<noteq> ''--compression-codec''"
    "step_output_uri demo_collab (case None of None \<Rightarrow> 3 | Some l \<Rightarrow> l) \<noteq> ''--compression-codec''"
    "cmd_line demo_collab (mr_job_extra_args demo_collab) \<noteq> ''--compression-codec''"
    by (simp_all add: demo_collab_def show_int_digits)
  have j: "jobconf_from_dict demo_collab (jobconf_for_step demo_collab 3)
             ''mapreduce.map.output.compress'' = Some ''true''"
    "jobconf_from_dict demo_collab (jobconf_for_step demo_collab 3)
             ''mapreduce.map.output.compress.codec'' =
       Some ''org.apache.hadoop.io.compress.GzipCodec''"
    by (simp_all add: demo_collab_def demo_compress_conf_def)
  show ?thesis
    using compression_codec_flag[OF h v] h v
    by (simp add: j)
qed

text \<open>
  C2 as stated fails: with \<^verbatim>\<open>mapreduce.map.output.compress\<close> set to \<^verbatim>\<open>False\<close>, which
  switches compression off, and a codec set, the flag is emitted with the codec for the
  last step of the job.
\<close>

theorem compression_codec_flag_counterexample:
  "jobconf_from_dict disabled_collab (jobconf_for_step disabled_collab 3)
     ''mapreduce.map.output.compress'' = Some ''False'' \<and>
   spark_script_args disabled_collab demo_runner 3 (Some 3) =
     Inr [AStr ''mr_word_count_me_20190101_000000.MRWordCount'', AStr ''tmp/step-output/2'',
          AStr ''out'',
          AStr ''--first-step-num'', AInt 3, AStr ''--last_step_num'', AInt 3,
          AStr ''--compression-codec'', AStr ''org.apache.hadoop.io.compress.GzipCodec'']"
proof -
  have v: "get_step disabled_collab 3 = Inr (streaming_step (Some conf_b))"
    "step_input_uris disabled_collab 3 = [''tmp/step-output/2'']"
    "step_output_uri disabled_collab 3 = ''out''"
    "num_steps disabled_collab = 4" "mr_job_extra_args disabled_collab = []"
    "jobconf_from_dict disabled_collab (jobconf_for_step disabled_collab 3)
       ''mapreduce.map.output.compress'' = Some ''False''"
    "jobconf_from_dict disabled_collab (jobconf_for_step disabled_collab 3)
       ''mapreduce.map.output.compress.codec'' =
         Some ''org.apache.hadoop.io.compress.GzipCodec''"
    "mrjob_cls demo_runner = Some ''MRWordCount''"
    by (simp_all add: disabled_collab_def demo_collab_def demo_steps_def
        disabled_compress_conf_def demo_runner_def show_int_digits)
  have m: "job_script_module_name disabled_collab demo_runner =
             ''mr_word_count_me_20190101_000000''"
    by (simp add: job_script_module_name_def demo_runner_def re_word_def re_digit_def)
  show ?thesis
    by (simp add: spark_script_args_def v demo_steps_types m truthy_def)
qed

section \<open>Submissions\<close>

lemma run_step_on_spark_raises:
  assumes "args_for_spark_step c step_num last_step_num = Inl e"
  shows "run_step_on_spark c step step_num last_step_num w = (Inl e, w)"
  using assms by (simp add: run_step_on_spark_def)

lemma get_job_script_dir_submissions:
  "submissions (snd (get_job_script_dir c w)) = submissions w"
  by (simp add: get_job_script_dir_def Let_def)

lemma run_step_on_spark_submits:
  assumes "args_for_spark_step c step_num last_step_num = Inr args"
  shows "\<exists>sub w'. run_step_on_spark c step step_num last_step_num w =
            (if sub_returncode sub = 0 then Inr ()
             else Inl (StepFailedException
                    \<lparr>sf_reason = called_process_error_str c (sub_returncode sub) args,
                     sf_step_num = step_num, sf_last_step_num = last_step_num,
                     sf_num_steps = num_steps c\<rparr>), w') \<and>
          submissions w' = submissions w @ [sub] \<and>
          sub_step_num sub = step_num \<and> sub_last_step_num sub = last_step_num \<and>
          sub_args sub = args"
proof (cases "spark_master_is_local c")
  case False
  then show ?thesis
    using assms by (simp add: run_step_on_spark_def Let_def)
next
  case True
  obtain dir w1 where d: "get_job_script_dir c w = (dir, w1)"
    by (cases "get_job_script_dir c w")
  have "submissions w1 = submissions w"
    using get_job_script_dir_submissions[of c w] d by simp
  then show ?thesis
    using assms True d by (simp add: run_step_on_spark_def Let_def)
qed

lemma called_process_error_str_positive:
  assumes "0 < returncode"
  shows "called_process_error_str c returncode cmd =
           ''Command '' @ [CHR 0x27] @ cmd_str c cmd @ [CHR 0x27] @
           '' returned non-zero exit status '' @ show_int returncode @ ''.''"
  using assms by (simp add: called_process_error_str_def)

lemma run_step_on_spark_unfold:
  assumes "args_for_spark_step c step_num last_step_num = Inr args"
  shows "\<exists>env w1. submissions w1 = submissions w \<and> fs_ops w1 = fs_ops w \<and>
           run_step_on_spark c step step_num last_step_num w =
             (if run_spark_submit c args env w1 = 0 then Inr ()
              else Inl (StepFailedException
                     \<lparr>sf_reason = called_process_error_str c (run_spark_submit c args env w1) args,
                      sf_step_num = step_num, sf_last_step_num = last_step_num,
                      sf_num_steps = num_steps c\<rparr>),
              w1\<lparr>submissions := submissions w1 @
                     [\<lparr>sub_step_num = step_num, sub_last_step_num = last_step_num,
                       sub_args = args, sub_env = env,
                       sub_returncode = run_spark_submit c args env w1\<rparr>]\<rparr>)"
proof (cases "spark_master_is_local c")
  case False
  have "run_step_on_spark c step step_num last_step_num w =
          (let env = os_environ c ++ spark_cmdenv c step_num in
             (if run_spark_submit c args env w = 0 then Inr ()
              else Inl (StepFailedException
                     \<lparr>sf_reason = called_process_error_str c (run_spark_submit c args env w) args,
                      sf_step_num = step_num, sf_last_step_num = last_step_num,
                      sf_num_steps = num_steps c\<rparr>),
              w\<lparr>submissions := submissions w @
                     [\<lparr>sub_step_num = step_num, sub_last_step_num = last_step_num,
                       sub_args = args, sub_env = env,
                       sub_returncode = run_spark_submit c args env w\<rparr>]\<rparr>))"
    using assms False by (simp add: run_step_on_spark_def Let_def)
  then show ?thesis unfolding Let_def by blast
next
  case True
  obtain dir w1 where d: "get_job_script_dir c w = (dir, w1)"
    by (cases "get_job_script_dir c w")
  have s: "submissions w1 = submissions w" "fs_ops w1 = fs_ops w"
    using d by (auto simp: get_job_script_dir_def Let_def split: if_splits)
  have "run_step_on_spark c step step_num last_step_num w =
          (let env = combine_local_envs c (os_environ c ++ spark_cmdenv c step_num)
                       [''PYTHONPATH'' \<mapsto> dir] in
             (if run_spark_submit c args env w1 = 0 then Inr ()
              else Inl (StepFailedException
                     \<lparr>sf_reason = called_process_error_str c (run_spark_submit c args env w1) args,
                      sf_step_num = step_num, sf_last_step_num = last_step_num,
                      sf_num_steps = num_steps c\<rparr>),
              w1\<lparr>submissions := submissions w1 @
                     [\<lparr>sub_step_num = step_num, sub_last_step_num = last_step_num,
                       sub_args = args, sub_env = env,
                       sub_returncode = run_spark_submit c args env w1\<rparr>]\<rparr>))"
    using assms True d by (simp add: run_step_on_spark_def Let_def)
  then show ?thesis unfolding Let_def using s by blast
qed

text \<open>
  C6, as amended. When the command line is built, \<^verbatim>\<open>_run_step_on_spark\<close> runs one subprocess
  and returns exactly when its exit code is 0. On any other exit code it raises
  \<^verbatim>\<open>StepFailedException\<close> with the first and last step number it was given, the number of
  steps of the job, and as reason the text of \<^verbatim>\<open>CalledProcessError\<close> for the exit code and the
  command line; for a positive exit code N that text is the word Command, the command
  line in quotes, and \<^verbatim>\<open>returned non-zero exit status N.\<close>
\<close>

theorem run_step_on_spark_result:
  assumes "args_for_spark_step c step_num last_step_num = Inr args"
  shows "\<exists>env w1. submissions w1 = submissions w \<and> fs_ops w1 = fs_ops w \<and>
           run_step_on_spark c step step_num last_step_num w =
             (if run_spark_submit c args env w1 = 0 then Inr ()
              else Inl (StepFailedException
                     \<lparr>sf_reason = called_process_error_str c (run_spark_submit c args env w1) args,
                      sf_step_num = step_num, sf_last_step_num = last_step_num,
                      sf_num_steps = num_steps c\<rparr>),
              w1\<lparr>submissions := submissions w1 @
                     [\<lparr>sub_step_num = step_num, sub_last_step_num = last_step_num,
                       sub_args = args, sub_env = env,
                       sub_returncode = run_spark_submit c args env w1\<rparr>]\<rparr>) \<and>
           (0 < run_spark_submit c args env w1 \<longrightarrow>
              called_process_error_str c (run_spark_submit c args env w1) args =
                ''Command '' @ [CHR 0x27] @ cmd_str c args @ [CHR 0x27] @
                '' returned non-zero exit status '' @
                show_int (run_spark_submit c args env w1) @ ''.'')"
proof -
  obtain env w1 where "submissions w1 = submissions w" "fs_ops w1 = fs_ops w"
    "run_step_on_spark c step step_num last_step_num w =
             (if run_spark_submit c args env w1 = 0 then Inr ()
              else Inl (StepFailedException
                     \<lparr>sf_reason = called_process_error_str c (run_spark_submit c args env w1) args,
                      sf_step_num = step_num, sf_last_step_num = last_step_num,
                      sf_num_steps = num_steps c\<rparr>),
              w1\<lparr>submissions := submissions w1 @
                     [\<lparr>sub_step_num = step_num, sub_last_step_num = last_step_num,
                       sub_args = args, sub_env = env,
                       sub_returncode = run_spark_submit c args env w1\<rparr>]\<rparr>)"
    using run_step_on_spark_unfold[OF assms] by blast
  then show ?thesis
    using called_process_error_str_positive[of "run_spark_submit c args env w1" c args]
    by blast
qed

lemma demo_submit:
  "args_for_spark_step demo_collab n l = Inr [AStr ''spark-submit'', AStr ''harness.py'', AInt n]"
  "run_spark_submit demo_collab [AStr ''spark-submit'', AStr ''harness.py'', AInt n] env w =
     (if n = 2 then 1 else 0)"
  "num_steps demo_collab = 4"
  by (simp_all add: demo_collab_def)

lemma demo_cmd_str:
  "cmd_str demo_collab [AStr ''spark-submit'', AStr ''harness.py'', AInt 2] = demo_cmd_text"
  by (simp add: demo_collab_def arg_repr_def show_int_digits demo_cmd_text_def)

lemma demo_run_step_2:
  "fst (run_step_on_spark demo_collab spark_step 2 (Some 2) demo_world) =
     Inl (StepFailedException
       \<lparr>sf_reason = ''Command '' @ [CHR 0x27] @ demo_cmd_text @ [CHR 0x27] @
                     '' returned non-zero exit status 1.'',
        sf_step_num = 2, sf_last_step_num = Some 2, sf_num_steps = 4\<rparr>)"
proof -
  have a: "args_for_spark_step demo_collab 2 (Some 2) =
             Inr [AStr ''spark-submit'', AStr ''harness.py'', AInt 2]"
    "run_spark_submit demo_collab [AStr ''spark-submit'', AStr ''harness.py'', AInt 2] env w = 1"
    "num_steps demo_collab = 4"
    for env w
    by (simp_all add: demo_collab_def)
  show ?thesis
    by (simp add: run_step_on_spark_def a Let_def called_process_error_str_def demo_cmd_str
        show_int_digits split_def)
qed

text \<open>The submission for step 2 of the concrete job fails with status 1, the one for step 3 succeeds.\<close>

theorem run_step_on_spark_result_witness:
  "args_for_spark_step demo_collab 2 (Some 2) =
     Inr [AStr ''spark-submit'', AStr ''harness.py'', AInt 2] \<and>
   fst (run_step_on_spark demo_collab spark_step 2 (Some 2) demo_world) =
     Inl (StepFailedException
       \<lparr>sf_reason = ''Command '' @ [CHR 0x27] @ demo_cmd_text @ [CHR 0x27] @
                     '' returned non-zero exit status 1.'',
        sf_step_num = 2, sf_last_step_num = Some 2, sf_num_steps = 4\<rparr>) \<and>
   fst (run_step_on_spark demo_collab (streaming_step (Some conf_b)) 3 (Some 3) demo_world) =
     Inr ()"
proof -
  have a: "fst (run_step_on_spark demo_collab spark_step 2 (Some 2) demo_world) =
     Inl (StepFailedException
       \<lparr>sf_reason = ''Command '' @ [CHR 0x27] @ demo_cmd_text @ [CHR 0x27] @
                     '' returned non-zero exit status 1.'',
        sf_step_num = 2, sf_last_step_num = Some 2, sf_num_steps = 4\<rparr>)"
    using run_step_on_spark_result[of demo_collab 2 "Some 2"
        "[AStr ''spark-submit'', AStr ''harness.py'', AInt 2]" demo_world spark_step]
    by (auto simp: demo_submit show_int_digits demo_cmd_str)
  have b: "fst (run_step_on_spark demo_collab (streaming_step (Some conf_b)) 3 (Some 3)
                  demo_world) = Inr ()"
    using run_step_on_spark_result[of demo_collab 3 "Some 3"
        "[AStr ''spark-submit'', AStr ''harness.py'', AInt 3]" demo_world
        "streaming_step (Some conf_b)"]
    by (auto simp: demo_submit)
  show ?thesis using a b demo_submit(1) by blast
qed

text \<open>
  C6 as stated fails: for exit code 1 the reason is not \<^verbatim>\<open>command exited with status 1\<close>.
\<close>

theorem run_step_on_spark_reason_counterexample:
  "fst (run_step_on_spark demo_collab spark_step 2 (Some 2) demo_world) =
     Inl (StepFailedException
       \<lparr>sf_reason = ''Command '' @ [CHR 0x27] @ demo_cmd_text @ [CHR 0x27] @
                     '' returned non-zero exit status 1.'',
        sf_step_num = 2, sf_last_step_num = Some 2, sf_num_steps = 4\<rparr>) \<and>
   ''Command '' @ [CHR 0x27] @ demo_cmd_text @ [CHR 0x27] @ '' returned non-zero exit status 1.''
     \<noteq> ''command exited with status 1''"
  using demo_run_step_2 by (simp add: demo_cmd_text_def)


lemma trace_of_none: "res \<noteq> Inr () \<Longrightarrow> trace_of c (g # gs) res []"
  by (simp add: trace_of_def)

lemma trace_of_nil: "trace_of c [] (Inr ()) []"
  by (simp add: trace_of_def)

lemma trace_of_failed:
  assumes "sub_range sub = group_range g" "sub_returncode sub \<noteq> 0"
  shows "trace_of c (g # gs) (Inl (step_failed_of c sub)) [sub]"
  using assms by (simp add: trace_of_def step_failed_of_def)

lemma trace_of_cons:
  assumes "sub_range sub = group_range g" "sub_returncode sub = 0" "trace_of c gs res subs"
  shows "trace_of c (g # gs) res (sub # subs)"
proof -
  have a: "map sub_range subs = take (length subs) (map group_range gs)"
    and b: "\<forall>s \<in> set (butlast subs). sub_returncode s = 0"
    and d: "(res = Inr ()) = (length subs = length gs \<and> (\<forall>s \<in> set subs. sub_returncode s = 0))"
    and e: "subs \<noteq> [] \<and> sub_returncode (last subs) \<noteq> 0 \<longrightarrow> res = Inl (step_failed_of c (last subs))"
    using assms(3) unfolding trace_of_def by blast+
  have 1: "map sub_range (sub # subs) = take (length (sub # subs)) (map group_range (g # gs))"
    using a assms(1) by simp
  have 2: "\<forall>s \<in> set (butlast (sub # subs)). sub_returncode s = 0"
    using b assms(2) by simp
  have 3: "(res = Inr ()) = (length (sub # subs) = length (g # gs) \<and>
              (\<forall>s \<in> set (sub # subs). sub_returncode s = 0))"
    using d assms(2) by simp
  have 4: "sub # subs \<noteq> [] \<and> sub_returncode (last (sub # subs)) \<noteq> 0 \<longrightarrow>
             res = Inl (step_failed_of c (last (sub # subs)))"
    using e assms(2) by (cases "subs = []") simp_all
  show ?thesis unfolding trace_of_def using 1 2 3 4 by blast
qed

lemma run_groups_trace:
  "\<exists>subs. submissions (snd (run_groups c groups w)) = submissions w @ subs \<and>
          trace_of c groups (fst (run_groups c groups w)) subs"
proof (induction groups arbitrary: w)
  case Nil
  show ?case using trace_of_nil by simp
next
  case (Cons g gs)
  show ?case
  proof (cases "g_steps g")
    case Nil
    then have "run_groups c (g # gs) w = (Inl IndexError, w)" by (simp add: Let_def)
    then show ?thesis using trace_of_none[of "Inl IndexError" c g gs] by simp
  next
    case (Cons step0 more)
    let ?n = "g_step_num g"
    let ?l = "Some (g_step_num g + int (length (g_steps g)) - 1)"
    have rg: "run_groups c (g # gs) w =
        (case run_step_on_spark c step0 ?n ?l w of
           (Inl e, w') \<Rightarrow> (Inl e, w')
         | (Inr _, w') \<Rightarrow> run_groups c gs w')"
      using Cons by (simp add: Let_def)
    show ?thesis
    proof (cases "args_for_spark_step c ?n ?l")
      case (Inl e)
      have "run_groups c (g # gs) w = (Inl e, w)"
        unfolding rg run_step_on_spark_raises[OF Inl] by simp
      then show ?thesis using trace_of_none[of "Inl e" c g gs] by simp
    next
      case (Inr args)
      obtain sub w' where r: "run_step_on_spark c step0 ?n ?l w =
            (if sub_returncode sub = 0 then Inr ()
             else Inl (StepFailedException
                    \<lparr>sf_reason = called_process_error_str c (sub_returncode sub) args,
                     sf_step_num = ?n, sf_last_step_num = ?l,
                     sf_num_steps = num_steps c\<rparr>), w')"
        and s: "submissions w' = submissions w @ [sub]"
        and f: "sub_step_num sub = ?n" "sub_last_step_num sub = ?l" "sub_args sub = args"
        using run_step_on_spark_submits[OF Inr] by blast
      have rng: "sub_range sub = group_range g"
        using f by (simp add: sub_range_def group_range_def)
      show ?thesis
      proof (cases "sub_returncode sub = 0")
        case False
        have "run_groups c (g # gs) w = (Inl (step_failed_of c sub), w')"
          unfolding rg r using False f by (simp add: step_failed_of_def)
        then show ?thesis using s trace_of_failed[OF rng False, of c gs] by simp
      next
        case True
        have eq: "run_groups c (g # gs) w = run_groups c gs w'"
          unfolding rg r using True by simp
        obtain subs where ih: "submissions (snd (run_groups c gs w')) = submissions w' @ subs"
          "trace_of c gs (fst (run_groups c gs w')) subs"
          using Cons.IH[of w'] by blast
        have "submissions (snd (run_groups c (g # gs) w)) = submissions w @ (sub # subs)"
          unfolding eq using ih(1) s by simp
        moreover have "trace_of c (g # gs) (fst (run_groups c (g # gs) w)) (sub # subs)"
          unfolding eq using trace_of_cons[OF rng True ih(2)] .
        ultimately show ?thesis by blast
      qed
    qed
  qed
qed

text \<open>
  C7. \<^verbatim>\<open>_run_steps_on_spark\<close> submits the groups in job order, one submission per group:
  the step ranges of the submissions it makes are those of the first groups, in order.
  Every submission but the last one made ended with exit code 0, so a group is submitted
  only after the one before it succeeded and nothing is submitted after a failure. The
  run succeeds exactly when every group was submitted and ended with 0, and when the last
  submission failed the run raises the exception for that submission.
\<close>

theorem run_steps_on_spark_sequential:
  "\<exists>groups subs.
     group_steps (get_steps c) = Inr groups \<and>
     submissions (snd (run_steps_on_spark c w)) = submissions w @ subs \<and>
     map sub_range subs = take (length subs) (map group_range groups) \<and>
     (\<forall>s \<in> set (butlast subs). sub_returncode s = 0) \<and>
     ((fst (run_steps_on_spark c w) = Inr ()) =
        (length subs = length groups \<and> (\<forall>s \<in> set subs. sub_returncode s = 0))) \<and>
     (subs \<noteq> [] \<and> sub_returncode (last subs) \<noteq> 0 \<longrightarrow>
        fst (run_steps_on_spark c w) = Inl (step_failed_of c (last subs)))"
proof -
  obtain groups where g: "group_steps (get_steps c) = Inr groups"
    using group_steps_grouping by blast
  have eq: "run_steps_on_spark c w = run_groups c groups w"
    using g by (simp add: run_steps_on_spark_def)
  obtain subs where "submissions (snd (run_groups c groups w)) = submissions w @ subs"
    "trace_of c groups (fst (run_groups c groups w)) subs"
    using run_groups_trace by blast
  then show ?thesis
    unfolding eq trace_of_def using g by blast
qed


lemma demo_run_groups:
  "map (\<lambda>s. (sub_range s, sub_returncode s))
     (submissions (snd (run_steps_on_spark demo_collab demo_world))) =
     [((0, Some 1), 0), ((2, Some 2), 1)]"
proof -
  have g: "group_steps (get_steps demo_collab) = Inr demo_groups"
    using group_steps_demo by (simp add: demo_collab_def)
  have l: "spark_master_is_local demo_collab" "os_environ demo_collab = Map.empty"
    "spark_cmdenv demo_collab n = Map.empty" for n
    by (simp_all add: demo_collab_def)
  show ?thesis
    by (simp add: run_steps_on_spark_def g demo_groups_def run_step_on_spark_def Let_def
        demo_submit l get_job_script_dir_def demo_world_def sub_range_def split_def)
qed

text \<open>
  In the concrete job the group of steps 0 and 1 succeeds and the group of step 2 fails:
  the group of step 3 is never submitted.
\<close>

theorem run_steps_on_spark_sequential_witness:
  "map sub_range (submissions (snd (run_steps_on_spark demo_collab demo_world))) =
     [(0, Some 1), (2, Some 2)] \<and>
   map group_range demo_groups = [(0, Some 1), (2, Some 2), (3, Some 3)] \<and>
   (\<exists>s. fst (run_steps_on_spark demo_collab demo_world) = Inl (step_failed_of demo_collab s) \<and>
        sub_range s = (2, Some 2) \<and> sub_returncode s = 1)"
proof -
  obtain groups subs where
    s: "submissions (snd (run_steps_on_spark demo_collab demo_world)) =
          submissions demo_world @ subs"
    and f: "subs \<noteq> [] \<and> sub_returncode (last subs) \<noteq> 0 \<longrightarrow>
        fst (run_steps_on_spark demo_collab demo_world) = Inl (step_failed_of demo_collab (last subs))"
    using run_steps_on_spark_sequential[of demo_collab demo_world] by blast
  have e: "subs = submissions (snd (run_steps_on_spark demo_collab demo_world))"
    using s by (simp add: demo_world_def)
  have m: "map (\<lambda>s. (sub_range s, sub_returncode s)) subs = [((0, Some 1), 0), ((2, Some 2), 1)]"
    unfolding e by (rule demo_run_groups)
  then obtain s1 s2 where ss: "subs = [s1, s2]"
    "sub_range s1 = (0, Some 1)" "sub_range s2 = (2, Some 2)" "sub_returncode s2 = 1"
    by (auto simp: map_eq_Cons_conv)
  have 1: "fst (run_steps_on_spark demo_collab demo_world) = Inl (step_failed_of demo_collab s2)"
    using f ss by simp
  have 2: "map sub_range (submissions (snd (run_steps_on_spark demo_collab demo_world))) =
     [(0, Some 1), (2, Some 2)]"
    unfolding e[symmetric] using ss by simp
  have 3: "map group_range demo_groups = [(0, Some 1), (2, Some 2), (3, Some 3)]"
    by (simp add: demo_groups_def group_range_def)
  show ?thesis using 1 2 3 ss(3,4) by blast
qed


section \<open>Step validation\<close>

lemma check_mrcs_rejects:
  assumes "\<exists>p \<in> set mrcs. has_command (snd p)"
  shows "\<exists>msg. check_mrcs step_num mrcs = Inl (NotImplementedError msg)"
  using assms
proof (induction mrcs)
  case Nil
  then show ?case by simp
next
  case (Cons p mrcs)
  obtain mrc sub where p: "p = (mrc, sub)" by (cases p)
  show ?case
  proof (cases "has_command sub")
    case True
    then obtain d where d: "sub = Some d" "''command'' \<in> dom d \<or> ''pre_filter'' \<in> dom d"
      by (auto simp: has_command_def split: option.splits)
    then have "dom d \<noteq> {}" by auto
    then show ?thesis using d by (simp add: p)
  next
    case False
    then have "\<exists>q \<in> set mrcs. has_command (snd q)" using Cons.prems p by auto
    then obtain msg where m: "check_mrcs step_num mrcs = Inl (NotImplementedError msg)"
      using Cons.IH by blast
    show ?thesis
    proof (cases sub)
      case None
      then show ?thesis using m by (simp add: p)
    next
      case (Some d)
      then have "\<not> (''command'' \<in> dom d \<or> ''pre_filter'' \<in> dom d)"
        using False by (simp add: has_command_def)
      then show ?thesis using m Some by (simp add: p)
    qed
  qed
qed

lemma check_step_raises:
  assumes "input_manifest step = Some True \<or>
           (stype step = ''streaming'' \<and>
            (has_command (mapper step) \<or> has_command (combiner step) \<or>
             has_command (reducer step)))"
  shows "\<exists>e. check_step c r step step_num = Inl e"
    and "super_check_step c step step_num = Inr () \<Longrightarrow>
         input_manifest step = Some True \<or> mrjob_cls r \<noteq> None \<Longrightarrow>
         \<exists>msg. check_step c r step step_num = Inl (NotImplementedError msg)"
proof -
  have mrcs: "\<exists>msg. check_mrcs step_num
                 [(''mapper'', mapper step), (''combiner'', combiner step),
                  (''reducer'', reducer step)] = Inl (NotImplementedError msg)"
    if "has_command (mapper step) \<or> has_command (combiner step) \<or> has_command (reducer step)"
    using that by (intro check_mrcs_rejects) auto
  show "\<exists>e. check_step c r step step_num = Inl e"
  proof (cases "super_check_step c step step_num")
    case (Inl e)
    then show ?thesis by (simp add: check_step_def)
  next
    case (Inr u)
    show ?thesis
    proof (cases "input_manifest step = Some True")
      case True
      then show ?thesis using Inr by (simp add: check_step_def)
    next
      case False
      then have s: "stype step = ''streaming''"
        and h: "has_command (mapper step) \<or> has_command (combiner step) \<or>
                has_command (reducer step)"
        using assms by auto
      show ?thesis
      proof (cases "mrjob_cls r")
        case None
        then show ?thesis using Inr False s by (simp add: check_step_def)
      next
        case (Some cls)
        then show ?thesis using Inr False s mrcs[OF h] by (auto simp: check_step_def)
      qed
    qed
  qed
  show "\<exists>msg. check_step c r step step_num = Inl (NotImplementedError msg)"
    if sup: "super_check_step c step step_num = Inr ()"
      and ok: "input_manifest step = Some True \<or> mrjob_cls r \<noteq> None"
  proof (cases "input_manifest step = Some True")
    case True
    then show ?thesis using sup by (simp add: check_step_def)
  next
    case False
    then have s: "stype step = ''streaming''"
      and h: "has_command (mapper step) \<or> has_command (combiner step) \<or>
              has_command (reducer step)"
      using assms by auto
    have "mrjob_cls r \<noteq> None" using ok False by simp
    then show ?thesis using sup False s mrcs[OF h] by (auto simp: check_step_def)
  qed
qed

lemma check_steps_stops:
  assumes "(n, step) \<in> set ps" "\<And>m. \<exists>e. check_step c r step m = Inl e"
  shows "\<exists>e. check_steps c r ps = Inl e"
  using assms(1)
proof (induction ps)
  case Nil
  then show ?case by simp
next
  case (Cons p ps)
  obtain m s where p: "p = (m, s)" by (cases p)
  show ?case
  proof (cases "check_step c r s m")
    case (Inl e)
    then show ?thesis by (simp add: p)
  next
    case (Inr u)
    then have "step \<noteq> s" using assms(2)[of m] by auto
    then have "(n, step) \<in> set ps" using Cons.prems p by simp
    then show ?thesis using Cons.IH Inr by (simp add: p)
  qed
qed

lemma in_enumerate_from:
  "s \<in> set ss \<Longrightarrow> \<exists>n. (n, s) \<in> set (enumerate_from k ss)"
  by (induction ss arbitrary: k) auto

text \<open>
  C8. \<^verbatim>\<open>_check_step\<close> raises on every step whose \<^verbatim>\<open>input_manifest\<close> is set and on every
  streaming step whose mapper, combiner or reducer holds a \<^verbatim>\<open>command\<close> or a \<^verbatim>\<open>pre_filter\<close>.
  When the superclass check passes and the job class is set (or the step has an input
  manifest) the exception is \<^verbatim>\<open>NotImplementedError\<close>. When such a step is among the steps of
  the job the constructor raises, and a job run ends with that exception and leaves the
  world as it was: no filesystem call and no submission is made.
\<close>

theorem check_step_rejects:
  assumes "input_manifest step = Some True \<or>
           (stype step = ''streaming'' \<and>
            (has_command (mapper step) \<or> has_command (combiner step) \<or>
             has_command (reducer step)))"
  shows "(\<exists>e. check_step c r step step_num = Inl e) \<and>
         (super_check_step c step step_num = Inr () \<and>
          (input_manifest step = Some True \<or> mrjob_cls r \<noteq> None) \<longrightarrow>
            (\<exists>msg. check_step c r step step_num = Inl (NotImplementedError msg))) \<and>
         (step \<in> set (get_steps c) \<longrightarrow>
            (\<exists>e. init c r = Inl e \<and>
                 (\<forall>w. run_job c um_add working_dir_paths r w = (Inl e, w))))"
proof (intro conjI impI)
  show "\<exists>e. check_step c r step step_num = Inl e"
    using check_step_raises(1)[OF assms] .
next
  assume "super_check_step c step step_num = Inr () \<and>
          (input_manifest step = Some True \<or> mrjob_cls r \<noteq> None)"
  then show "\<exists>msg. check_step c r step step_num = Inl (NotImplementedError msg)"
    using check_step_raises(2)[OF assms] by blast
next
  assume "step \<in> set (get_steps c)"
  then obtain n where "(n, step) \<in> set (enumerate_from 0 (get_steps c))"
    using in_enumerate_from[of step "get_steps c" 0] by blast
  then obtain e where "check_steps c r (enumerate_from 0 (get_steps c)) = Inl e"
    using check_steps_stops[of n step _ c r] check_step_raises(1)[OF assms] by blast
  then have "init c r = Inl e" by (simp add: init_def super_init_def)
  then show "\<exists>e. init c r = Inl e \<and>
                 (\<forall>w. run_job c um_add working_dir_paths r w = (Inl e, w))"
    by (simp add: run_job_def)
qed


lemma command_step_facts:
  "stype command_step = ''streaming''" "has_command (reducer command_step)"
  "command_step \<in> set (get_steps command_collab)"
  "super_check_step command_collab command_step 1 = Inr ()"
  "mrjob_cls demo_runner \<noteq> None"
  by (simp_all add: command_step_def has_command_def command_collab_def demo_collab_def
      demo_runner_def)

text \<open>A job whose second step has a shell command as reducer.\<close>

theorem check_step_rejects_witness:
  "(input_manifest command_step = Some True \<or>
    (stype command_step = ''streaming'' \<and>
     (has_command (mapper command_step) \<or> has_command (combiner command_step) \<or>
      has_command (reducer command_step)))) \<and>
   super_check_step command_collab command_step 1 = Inr () \<and>
   mrjob_cls demo_runner \<noteq> None \<and>
   command_step \<in> set (get_steps command_collab) \<and>
   (\<exists>msg. check_step command_collab demo_runner command_step 1 = Inl (NotImplementedError msg)) \<and>
   (\<exists>e. init command_collab demo_runner = Inl e \<and>
        run_job command_collab (\<lambda>um p. um) [] demo_runner demo_world = (Inl e, demo_world))"
proof -
  have h: "input_manifest command_step = Some True \<or>
    (stype command_step = ''streaming'' \<and>
     (has_command (mapper command_step) \<or> has_command (combiner command_step) \<or>
      has_command (reducer command_step)))"
    using command_step_facts(1,2) by blast
  show ?thesis
    using check_step_rejects[OF h, of command_collab demo_runner 1 "\<lambda>um p. um" "[]"]
      h command_step_facts(3,4,5)
    by blast
qed

section \<open>Staging\<close>

lemma init_upload_mgr:
  assumes "init c r0 = Inr r"
  shows "upload_mgr r =
           (if is_uri c (spark_tmp_dir r)
            then Some \<lparr>um_prefix = posixpath_join (spark_tmp_dir r) [''files'', []],
                       um_path_to_uri = []\<rparr>
            else None)"
proof (cases "check_steps c r0 (enumerate_from 0 (get_steps c))")
  case (Inl e)
  then show ?thesis using assms by (simp add: init_def super_init_def)
next
  case (Inr u)
  have "r = (let r1 = r0\<lparr>upload_mgr := None\<rparr>;
              r2 = r1\<lparr>spark_tmp_dir := pick_spark_tmp_dir c r1\<rparr>;
              r3 = (if is_uri c (spark_tmp_dir r2)
                    then r2\<lparr>upload_mgr :=
                           Some \<lparr>um_prefix = posixpath_join (spark_tmp_dir r2) [''files'', []],
                                 um_path_to_uri = []\<rparr>\<rparr>
                    else r2);
              r4 = (if \<not> truthy (output_dir r3)
                    then r3\<lparr>output_dir := Some (posixpath_join (spark_tmp_dir r3) [''output''])\<rparr>
                    else r3)
          in r4\<lparr>spark_submit_bin := opt_spark_submit_bin r4, job_script_copy := None\<rparr>)"
    using assms Inr by (simp add: init_def super_init_def Let_def)
  then show ?thesis by (simp add: Let_def)
qed

text \<open>
  C9. For a runner the constructor returned: when the temporary directory is not a URI
  there is no upload manager, \<^verbatim>\<open>_add_job_files_for_upload\<close> leaves the runner as it is and
  \<^verbatim>\<open>_upload_local_files\<close> returns without changing the world, so no \<^verbatim>\<open>mkdir\<close> and no \<^verbatim>\<open>put\<close>
  is issued. Whenever \<^verbatim>\<open>_upload_local_files\<close> changes the world, the temporary directory is
  a URI.
\<close>

theorem local_tmp_dir_no_staging:
  assumes "init c r0 = Inr r"
  shows "(\<not> is_uri c (spark_tmp_dir r) \<longrightarrow>
            upload_mgr r = None \<and>
            add_job_files_for_upload um_add working_dir_paths r = r \<and>
            (\<forall>w. upload_local_files c r w = (Inr (), w))) \<and>
         (\<forall>w. snd (upload_local_files c r w) \<noteq> w \<longrightarrow> is_uri c (spark_tmp_dir r))"
proof -
  have none: "upload_mgr r = None" if "\<not> is_uri c (spark_tmp_dir r)"
    using init_upload_mgr[OF assms] that by simp
  have noop: "upload_local_files c r w = (Inr (), w)" if "upload_mgr r = None" for w
    using that by (simp add: upload_local_files_def)
  have same: "add_job_files_for_upload um_add working_dir_paths r = r" if "upload_mgr r = None"
    using that by (simp add: add_job_files_for_upload_def)
  show ?thesis
    using none noop same by (metis snd_conv)
qed

lemma demo_check_steps:
  "check_steps demo_collab demo_runner (enumerate_from 0 (get_steps demo_collab)) = Inr ()"
  by (simp add: demo_collab_def demo_steps_def check_step_def streaming_step_def
      spark_step_def demo_runner_def)

lemma demo_init:
  "\<exists>r. init demo_collab demo_runner = Inr r \<and>
       spark_tmp_dir r = ''/tmp/mr_word_count.me.20190101.000000-spark''"
  using demo_check_steps
  by (simp add: init_def super_init_def Let_def pick_spark_tmp_dir_def truthy_def
      os_path_join_def posixpath_join_def path_join2_def demo_runner_def demo_collab_def)

text \<open>The concrete job runs on a local master, with its temporary directory on the local disk.\<close>

theorem local_tmp_dir_no_staging_witness:
  "\<exists>r. init demo_collab demo_runner = Inr r \<and>
       \<not> is_uri demo_collab (spark_tmp_dir r) \<and>
       upload_mgr r = None \<and>
       add_job_files_for_upload (\<lambda>um p. um) [''job.py''] r = r \<and>
       upload_local_files demo_collab r demo_world = (Inr (), demo_world)"
proof -
  obtain r where r: "init demo_collab demo_runner = Inr r"
    and t: "spark_tmp_dir r = ''/tmp/mr_word_count.me.20190101.000000-spark''"
    using demo_init by blast
  have n: "\<not> is_uri demo_collab (spark_tmp_dir r)"
    unfolding t by (simp add: demo_collab_def)
  show ?thesis
    using local_tmp_dir_no_staging[OF r, of "\<lambda>um p. um" "[''job.py'']"] r n by blast
qed


end
